theory Spec2Isabelle
  imports Complex_Main "HOL-Library.Char_ord" "HOL-Library.List_Lexorder"
begin

section \<open>Strings\<close>

text \<open>
  A Python \<open>str\<close> is modelled as a HOL \<open>string\<close> whose characters are the code points
  below 256 (the Latin-1 range); \<open>of_char\<close> reads the code point. On that range
  \<open>str.strip()\<close> removes the characters for which \<open>str.isspace\<close> holds and
  \<open>str.lower()\<close> adds 32 to the upper-case letters. Strings are compared by code point,
  lexicographically, as Python compares them.
\<close>

definition isspace :: "char \<Rightarrow> bool" where
  "isspace c = (of_char c \<in> {9, 10, 11, 12, 13, 28, 29, 30, 31, 32, 133, 160 :: nat})"

definition lower_char :: "char \<Rightarrow> char" where
  "lower_char c =
     (let n = (of_char c :: nat)
      in if (65 \<le> n \<and> n \<le> 90) \<or> (192 \<le> n \<and> n \<le> 222 \<and> n \<noteq> 215)
         then char_of (n + 32) else c)"

definition str_strip :: "string \<Rightarrow> string" where
  "str_strip s = rev (dropWhile isspace (rev (dropWhile isspace s)))"

definition str_lower :: "string \<Rightarrow> string" where
  "str_lower s = map lower_char s"

text \<open>\<open>sep.join(xs)\<close>\<close>

fun join :: "string \<Rightarrow> string list \<Rightarrow> string" where
  "join sep [] = []"
| "join sep [x] = x"
| "join sep (x # y # ys) = x @ sep @ join sep (y # ys)"

section \<open>Data frames and errors\<close>

text \<open>
  A data frame is the list of its columns in order, each a column label with the cells of
  the column. Every cell is a string (the caller reads the workbook with \<open>dtype=str\<close>
  and replaces missing cells by the empty string). A label is the content of a header
  cell: a string, or a number when the header cell holds a number (a date behaves like a
  number here: it is no string). The columns of a frame have the same number of cells;
  two columns may carry the same label. Exceptions are values: \<open>ValueError\<close> carries
  its message.
\<close>

datatype label = Str string | Number rat

type_synonym dataframe = "(label \<times> string list) list"

datatype error = ValueError string | AttributeError | TypeError | KeyError

section \<open>Schema normalizer\<close>

definition column_aliases :: "(string \<times> string) list" where
  "column_aliases =
     [(''name'', ''name''),
      (''customer'', ''name''),
      (''carry out'', ''carry_out''),
      (''carryout'', ''carry_out''),
      (''carry-out'', ''carry_out''),
      (''dine in'', ''dine_in''),
      (''dine-in'', ''dine_in''),
      (''dinein'', ''dine_in'')]"

definition required_fields :: "string list" where
  "required_fields = [''name'', ''carry_out'', ''dine_in'']"

text \<open>\<open>lookup = {col.strip().lower(): col for col in dataframe.columns}\<close>: a later column
  replaces an earlier one under the same key, and a label that is no string has no
  \<open>strip\<close>, which raises \<open>AttributeError\<close>.\<close>

definition lookup_step :: "string \<Rightarrow> (string \<rightharpoonup> string) \<Rightarrow> (string \<rightharpoonup> string)" where
  "lookup_step col lookup = lookup(str_lower (str_strip col) \<mapsto> col)"

fun header_lookup_loop :: "label list \<Rightarrow> (string \<rightharpoonup> string) \<Rightarrow> error + (string \<rightharpoonup> string)" where
  "header_lookup_loop [] lookup = Inr lookup"
| "header_lookup_loop (Str col # cols) lookup = header_lookup_loop cols (lookup_step col lookup)"
| "header_lookup_loop (Number v # cols) lookup = Inl AttributeError"

definition header_lookup :: "label list \<Rightarrow> error + (string \<rightharpoonup> string)" where
  "header_lookup cols = header_lookup_loop cols Map.empty"

text \<open>The loop over \<open>column_aliases.items()\<close>, in the dictionary's order: the first alias
  found for a canonical field wins.\<close>

definition rename_step ::
  "(string \<rightharpoonup> string) \<Rightarrow> string \<times> string \<Rightarrow> (string \<rightharpoonup> string) \<Rightarrow> (string \<rightharpoonup> string)" where
  "rename_step lookup entry rename_map =
     (case (lookup (fst entry), rename_map (snd entry)) of
        (Some col, None) \<Rightarrow> rename_map(snd entry \<mapsto> col)
      | _ \<Rightarrow> rename_map)"

definition build_rename_map :: "(string \<rightharpoonup> string) \<Rightarrow> (string \<rightharpoonup> string)" where
  "build_rename_map lookup = fold (rename_step lookup) column_aliases Map.empty"

text \<open>\<open>{rename_map[key]: key for key in rename_map}\<close>; the keys of \<open>rename_map\<close> were
  inserted in the order of the canonical fields.\<close>

definition rename_dict :: "(string \<rightharpoonup> string) \<Rightarrow> (string \<rightharpoonup> string)" where
  "rename_dict rename_map =
     fold (\<lambda>key m. case rename_map key of Some col \<Rightarrow> m(col \<mapsto> key) | None \<Rightarrow> m)
       required_fields Map.empty"

text \<open>\<open>dataframe.rename(columns=d)\<close>: every column whose label is a key of \<open>d\<close> takes
  the new label, the others keep theirs.\<close>

definition rename_columns :: "(string \<rightharpoonup> string) \<Rightarrow> dataframe \<Rightarrow> dataframe" where
  "rename_columns d df =
     map (\<lambda>(l, cells).
            (case l of
               Str c \<Rightarrow> (case d c of Some k \<Rightarrow> Str k | None \<Rightarrow> Str c)
             | Number v \<Rightarrow> Number v,
             cells)) df"

definition normalize_orders_dataframe :: "dataframe \<Rightarrow> error + dataframe" where
  "normalize_orders_dataframe df =
     (case header_lookup (map fst df) of
        Inl e \<Rightarrow> Inl e
      | Inr lookup \<Rightarrow>
          (let rename_map = build_rename_map lookup;
               missing = filter (\<lambda>field. rename_map field = None) required_fields
           in if missing \<noteq> []
              then Inl (ValueError (''Missing required columns: '' @ join '', '' missing))
              else Inr (rename_columns (rename_dict rename_map) df)))"

section \<open>Numeric coercion of the count columns\<close>

text \<open>
  \<open>pd.to_numeric(column, errors="coerce")\<close> converts every cell on its own: a cell that is
  no number becomes NaN, the others become a finite number or an infinity. The library's
  conversion of one cell is a parameter \<open>to_numeric\<close> of the model; a finite result is
  given by its value, a rational number. The integer columns that \<open>.astype(int)\<close> and the
  group sums produce hold 64-bit integers: they are modelled as integers in the range
  from \<open>- 2 ^ 63\<close> to \<open>2 ^ 63 - 1\<close>, with the wrap-around of a sum written out.
\<close>

datatype numeric = NaN | PosInf | NegInf | Fin rat

text \<open>\<open>.fillna(0)\<close>\<close>

definition fillna0 :: "numeric \<Rightarrow> numeric" where
  "fillna0 x = (case x of NaN \<Rightarrow> Fin 0 | _ \<Rightarrow> x)"

fun is_finite :: "numeric \<Rightarrow> bool" where
  "is_finite (Fin q) = True"
| "is_finite _ = False"

text \<open>The cast of a float to an integer drops the fractional part (rounds toward zero).
  A value whose integer part is no 64-bit integer has no defined result; the conversion
  instruction of x86-64, which the cast compiles to, gives \<open>- 2 ^ 63\<close> then.\<close>

definition truncate_rat :: "rat \<Rightarrow> int" where
  "truncate_rat q = (if 0 \<le> q then \<lfloor>q\<rfloor> else \<lceil>q\<rceil>)"

definition in_int64 :: "int \<Rightarrow> bool" where
  "in_int64 n = (- (2 ^ 63) \<le> n \<and> n < 2 ^ 63)"

definition int64_cast :: "rat \<Rightarrow> int" where
  "int64_cast q = (if in_int64 (truncate_rat q) then truncate_rat q else - (2 ^ 63))"

fun int_of_numeric :: "numeric \<Rightarrow> int" where
  "int_of_numeric (Fin q) = int64_cast q"
| "int_of_numeric _ = 0"

text \<open>The sum of two 64-bit integers wraps around.\<close>

definition wrap64 :: "int \<Rightarrow> int" where
  "wrap64 n = (n + 2 ^ 63) mod 2 ^ 64 - 2 ^ 63"

text \<open>\<open>.astype(int)\<close>: the library refuses a column that holds a value that is not
  finite.\<close>

definition astype_int :: "numeric list \<Rightarrow> error + int list" where
  "astype_int xs =
     (if list_all is_finite xs then Inr (map int_of_numeric xs)
      else Inl (ValueError ''Cannot convert non-finite values (NA or inf) to integer''))"

text \<open>\<open>.clip(lower=0)\<close>\<close>

definition clip_lower0 :: "int list \<Rightarrow> int list" where
  "clip_lower0 xs = map (max 0) xs"

text \<open>\<open>pd.to_numeric(column, errors="coerce").fillna(0).astype(int).clip(lower=0)\<close>\<close>

definition coerce_counts :: "(string \<Rightarrow> numeric) \<Rightarrow> string list \<Rightarrow> error + int list" where
  "coerce_counts to_numeric cells =
     (case astype_int (map fillna0 (map to_numeric cells)) of
        Inl e \<Rightarrow> Inl e
      | Inr xs \<Rightarrow> Inr (clip_lower0 xs))"

subsection \<open>The conversion of decimal cells\<close>

text \<open>
  The library's conversion of one cell, for the statements that are evaluated at given
  cells: blanks around the number, a sign, decimal digits with an optional fraction and
  an optional exponent; the words \<open>inf\<close> and \<open>infinity\<close> with an optional sign, in any
  letter case; every other cell is no number. A number is given by its decimal value
  (the rounding to a binary float and the range of a float are not represented).
\<close>

definition is_digit :: "char \<Rightarrow> bool" where
  "is_digit c = (let n = (of_char c :: nat) in 48 \<le> n \<and> n \<le> 57)"

definition c_isspace :: "char \<Rightarrow> bool" where
  "c_isspace c = (of_char c \<in> {9, 10, 11, 12, 13, 32 :: nat})"

definition digits_value :: "string \<Rightarrow> nat" where
  "digits_value ds = foldl (\<lambda>acc c. 10 * acc + (of_char c - 48)) 0 ds"

definition split_sign :: "string \<Rightarrow> bool \<times> string" where
  "split_sign s =
     (case s of
        [] \<Rightarrow> (False, [])
      | c # r \<Rightarrow> if c = CHR ''-'' then (True, r) else if c = CHR ''+'' then (False, r) else (False, s))"

definition split_fraction :: "string \<Rightarrow> string \<times> string" where
  "split_fraction s =
     (case s of
        [] \<Rightarrow> ([], [])
      | c # r \<Rightarrow> if c = CHR ''.'' then (takeWhile is_digit r, dropWhile is_digit r) else ([], s))"

definition split_exponent :: "string \<Rightarrow> (int \<times> string) option" where
  "split_exponent s =
     (case s of
        [] \<Rightarrow> Some (0, [])
      | c # r \<Rightarrow>
          if c = CHR ''e'' \<or> c = CHR ''E''
          then (let (negative, er) = split_sign r;
                    ed = takeWhile is_digit er;
                    ev = int (digits_value ed)
                in if ed = [] then None
                   else Some (if negative then - ev else ev, dropWhile is_digit er))
          else Some (0, s))"

text \<open>The mantissa and the decimal exponent of a cell that is a decimal number.\<close>

definition parse_decimal :: "string \<Rightarrow> (int \<times> int) option" where
  "parse_decimal s =
     (let (negative, r0) = split_sign (dropWhile c_isspace s);
          ip = takeWhile is_digit r0;
          (fp, r2) = split_fraction (dropWhile is_digit r0);
          m = int (digits_value (ip @ fp))
      in if ip @ fp = [] then None
         else (case split_exponent r2 of
                 None \<Rightarrow> None
               | Some (ex, r3) \<Rightarrow>
                   if dropWhile c_isspace r3 = []
                   then Some (if negative then - m else m, ex - int (length fp))
                   else None))"

definition decimal_value :: "int \<times> int \<Rightarrow> rat" where
  "decimal_value me =
     (if 0 \<le> snd me then of_int (fst me) * 10 ^ nat (snd me)
      else of_int (fst me) / 10 ^ nat (- snd me))"

definition to_numeric_cell :: "string \<Rightarrow> numeric" where
  "to_numeric_cell s =
     (case parse_decimal s of
        Some me \<Rightarrow> Fin (decimal_value me)
      | None \<Rightarrow>
          (let w = str_lower s
           in if w \<in> {''inf'', ''+inf'', ''infinity'', ''+infinity''} then PosInf
              else if w \<in> {''-inf'', ''-infinity''} then NegInf
              else NaN))"

section \<open>Order aggregator\<close>

text \<open>An aggregated order: the name, the carry-out total and the dine-in total.\<close>

type_synonym aggregated_order = "string \<times> int \<times> int"

text \<open>
  \<open>groupby("name", as_index=False).agg({"carry_out": "sum", "dine_in": "sum"})\<close> keeps
  one row per distinct name with the sums of its rows, added as 64-bit integers, and
  \<open>sort_values("name")\<close> orders the rows by name.
\<close>

fun add_to_group :: "aggregated_order \<Rightarrow> aggregated_order list \<Rightarrow> aggregated_order list" where
  "add_to_group (n, c, d) [] = [(n, c, d)]"
| "add_to_group (n, c, d) ((n', c', d') # groups) =
     (if n = n' then (n', wrap64 (c' + c), wrap64 (d' + d)) # groups
      else (n', c', d') # add_to_group (n, c, d) groups)"

definition groupby_sum :: "aggregated_order list \<Rightarrow> aggregated_order list" where
  "groupby_sum rows = sort_key fst (fold add_to_group rows [])"

text \<open>\<open>dataframe[label]\<close>: the columns that carry the label.\<close>

definition getitem :: "dataframe \<Rightarrow> label \<Rightarrow> string list list" where
  "getitem df label = map snd (filter (\<lambda>col. fst col = label) df)"

text \<open>\<open>column[mask]\<close>: the cells of the rows the mask keeps.\<close>

definition select_rows :: "bool list \<Rightarrow> 'a list \<Rightarrow> 'a list" where
  "select_rows keep cells = map snd (filter fst (zip keep cells))"

text \<open>
  Lines 219 to 234 of \<open>_prepare_label_cards\<close>. With two columns under the label
  \<open>name\<close> the selection is a frame, which has no \<open>.str\<close>; with two columns under
  \<open>carry_out\<close> or \<open>dine_in\<close> the selection is a frame, which \<open>pd.to_numeric\<close> refuses.
\<close>

definition aggregate_orders ::
  "(string \<Rightarrow> numeric) \<Rightarrow> dataframe \<Rightarrow> error + aggregated_order list" where
  "aggregate_orders to_numeric normalized =
     (case getitem normalized (Str ''name'') of
        [] \<Rightarrow> Inl KeyError
      | [name_cells] \<Rightarrow>
          (let names = map str_strip name_cells;
               keep = map (\<lambda>n. n \<noteq> []) names
           in case getitem normalized (Str ''carry_out'') of
                [] \<Rightarrow> Inl KeyError
              | [carry_cells] \<Rightarrow>
                  (case coerce_counts to_numeric (select_rows keep carry_cells) of
                     Inl e \<Rightarrow> Inl e
                   | Inr carry_out \<Rightarrow>
                       (case getitem normalized (Str ''dine_in'') of
                          [] \<Rightarrow> Inl KeyError
                        | [dine_cells] \<Rightarrow>
                            (case coerce_counts to_numeric (select_rows keep dine_cells) of
                               Inl e \<Rightarrow> Inl e
                             | Inr dine_in \<Rightarrow>
                                 Inr (groupby_sum
                                   (zip (select_rows keep names) (zip carry_out dine_in))))
                        | _ \<Rightarrow> Inl TypeError))
              | _ \<Rightarrow> Inl TypeError)
      | _ \<Rightarrow> Inl AttributeError)"

section \<open>Label card sequencer\<close>

datatype label_card =
  LabelCard (name: string) (count: "int option") (doubles: "int option") (singles: "int option")

definition required_label_count :: "int \<Rightarrow> int" where
  "required_label_count carry_out_total =
     (if carry_out_total \<le> 0 then 0
      else carry_out_total div 2 + carry_out_total mod 2)"

text \<open>The loop over the aggregated rows, with its three accumulators.\<close>

fun card_loop ::
  "aggregated_order list \<Rightarrow> label_card list \<times> int \<times> int \<Rightarrow> label_card list \<times> int \<times> int" where
  "card_loop [] acc = acc"
| "card_loop ((n, carry_count, d) # rows) (label_cards, total_doubles, total_singles) =
     (if carry_count \<le> 0 then card_loop rows (label_cards, total_doubles, total_singles)
      else
        (let total_labels = required_label_count carry_count
         in card_loop rows
              (label_cards @ [LabelCard n (Some carry_count) None None]
                 @ replicate (nat (total_labels - 1)) (LabelCard n None None None),
               total_doubles + carry_count div 2,
               total_singles + carry_count mod 2)))"

text \<open>Lines 236 to 262 of \<open>_prepare_label_cards\<close>: the loop, then the pack summary card.\<close>

definition sequence_label_cards :: "aggregated_order list \<Rightarrow> label_card list" where
  "sequence_label_cards aggregated =
     (case card_loop aggregated ([], 0, 0) of
        (label_cards, total_doubles, total_singles) \<Rightarrow>
          if total_doubles \<noteq> 0 \<or> total_singles \<noteq> 0
          then label_cards @ [LabelCard ''Pack Summary'' None (Some total_doubles) (Some total_singles)]
          else label_cards)"

text \<open>Lines 264 to 268 of \<open>_prepare_label_cards\<close>.\<close>

definition dine_summary_of :: "aggregated_order list \<Rightarrow> (string \<times> int) list" where
  "dine_summary_of aggregated =
     map (\<lambda>(n, c, d). (n, d)) (filter (\<lambda>(n, c, d). 0 < d) aggregated)"

definition prepare_label_cards ::
  "(string \<Rightarrow> numeric) \<Rightarrow> dataframe \<Rightarrow> error + label_card list \<times> (string \<times> int) list" where
  "prepare_label_cards to_numeric dataframe =
     (case normalize_orders_dataframe dataframe of
        Inl e \<Rightarrow> Inl e
      | Inr normalized \<Rightarrow>
          (case aggregate_orders to_numeric normalized of
             Inl e \<Rightarrow> Inl e
           | Inr aggregated \<Rightarrow>
               Inr (sequence_label_cards aggregated, dine_summary_of aggregated)))"

section \<open>The drawing surface\<close>

text \<open>
  The canvas of the PDF library, as far as the program uses it: drawing appends operators
  to the current page, \<open>showPage\<close> closes the current page and starts an empty one, and
  \<open>save\<close> closes the current page if anything was drawn on it. A table is recorded with
  the place of its top left corner (the program draws it at \<open>start_y - table_height\<close>,
  which is where a table of that height must start to end at \<open>start_y\<close>), its cell texts
  and its column widths; its styling is left to the library. Lengths are in points, as
  exact rational numbers.
\<close>

datatype draw_op =
    SetFont string rat
  | DrawCentredString rat rat string
  | DrawString rat rat string
  | DrawTable rat rat "string list list" "rat list"

record canvas =
  finished_pages :: "draw_op list list"
  current_page :: "draw_op list"

definition new_canvas :: canvas where
  "new_canvas = \<lparr>finished_pages = [], current_page = []\<rparr>"

definition emit :: "canvas \<Rightarrow> draw_op list \<Rightarrow> canvas" where
  "emit pdf ops = pdf\<lparr>current_page := current_page pdf @ ops\<rparr>"

definition showPage :: "canvas \<Rightarrow> canvas" where
  "showPage pdf = \<lparr>finished_pages = finished_pages pdf @ [current_page pdf], current_page = []\<rparr>"

definition save :: "canvas \<Rightarrow> draw_op list list" where
  "save pdf = finished_pages (if current_page pdf \<noteq> [] then showPage pdf else pdf)"

text \<open>\<open>str(n)\<close> for an integer.\<close>

fun digits_of_nat :: "nat \<Rightarrow> string" where
  "digits_of_nat n =
     (if n < 10 then [char_of (48 + n)]
      else digits_of_nat (n div 10) @ [char_of (48 + n mod 10)])"

definition str_int :: "int \<Rightarrow> string" where
  "str_int i = (if i < 0 then CHR ''-'' # digits_of_nat (nat (- i)) else digits_of_nat (nat i))"

section \<open>Layout constants\<close>

definition inch :: rat where "inch = 72"
definition letter :: "rat \<times> rat" where "letter = (612, 792)"
definition LABEL_COLUMNS :: nat where "LABEL_COLUMNS = 3"
definition LABEL_ROWS :: nat where "LABEL_ROWS = 10"
definition LABEL_WIDTH :: rat where "LABEL_WIDTH = 2.625 * inch"
definition LABEL_HEIGHT :: rat where "LABEL_HEIGHT = 1.0 * inch"
definition HORIZONTAL_GAP :: rat where "HORIZONTAL_GAP = 0.1 * inch"
definition VERTICAL_GAP :: rat where "VERTICAL_GAP = 0 * inch"
definition PAGE_MARGIN_X :: rat where "PAGE_MARGIN_X = 0.2 * inch"
definition PAGE_MARGIN_Y :: rat where "PAGE_MARGIN_Y = 0.4 * inch"
definition TITLE_FONT :: string where "TITLE_FONT = ''Helvetica-Bold''"
definition BODY_FONT :: string where "BODY_FONT = ''Helvetica''"
definition TITLE_FONT_SIZE :: rat where "TITLE_FONT_SIZE = 12"
definition BODY_FONT_SIZE :: rat where "BODY_FONT_SIZE = 10"
definition COUNT_FONT_SIZE :: rat where "COUNT_FONT_SIZE = 12"
definition CONTENT_PADDING :: rat where "CONTENT_PADDING = 0.2 * inch"
definition SUMMARY_TITLE_FONT_SIZE :: rat where "SUMMARY_TITLE_FONT_SIZE = 18"
definition SUMMARY_BODY_FONT_SIZE :: rat where "SUMMARY_BODY_FONT_SIZE = 11"

section \<open>Drawing the label cards and the summary\<close>

text \<open>\<open>x or 0\<close> for an optional integer.\<close>

definition or0 :: "int option \<Rightarrow> int" where
  "or0 x = (case x of None \<Rightarrow> 0 | Some v \<Rightarrow> v)"

definition draw_label_card :: "canvas \<Rightarrow> rat \<Rightarrow> rat \<Rightarrow> label_card \<Rightarrow> canvas" where
  "draw_label_card pdf label_top label_left crd =
     (let label_bottom = label_top - LABEL_HEIGHT;
          center_x = label_left + LABEL_WIDTH / 2
      in if doubles crd \<noteq> None \<or> singles crd \<noteq> None
         then
           (let title_baseline = label_top - CONTENT_PADDING - (TITLE_FONT_SIZE * 0.6);
                doubles_y = title_baseline - BODY_FONT_SIZE - 6;
                singles_y = doubles_y - BODY_FONT_SIZE - 4
            in emit pdf
                 [SetFont TITLE_FONT TITLE_FONT_SIZE,
                  DrawCentredString center_x title_baseline (name crd),
                  SetFont BODY_FONT BODY_FONT_SIZE,
                  DrawCentredString center_x doubles_y (''Doubles: '' @ str_int (or0 (doubles crd))),
                  DrawCentredString center_x singles_y (''Singles: '' @ str_int (or0 (singles crd)))])
         else
           (let name_y =
                  (if count crd = None
                   then label_bottom + (LABEL_HEIGHT / 2) - (TITLE_FONT_SIZE / 2)
                   else label_top - CONTENT_PADDING - TITLE_FONT_SIZE);
                pdf1 = emit pdf
                  [SetFont TITLE_FONT TITLE_FONT_SIZE,
                   DrawCentredString center_x name_y (name crd)]
            in case count crd of
                 None \<Rightarrow> pdf1
               | Some c \<Rightarrow>
                   (let count_y = label_bottom + (LABEL_HEIGHT / 2) - (COUNT_FONT_SIZE * 0.5)
                    in emit pdf1
                         [SetFont TITLE_FONT COUNT_FONT_SIZE,
                          DrawCentredString center_x count_y (str_int c)])))"

definition draw_dine_in_summary ::
  "canvas \<Rightarrow> (string \<times> int) list \<Rightarrow> rat \<Rightarrow> rat \<Rightarrow> canvas" where
  "draw_dine_in_summary pdf dine_in_summary page_width page_height =
     (let margin_x = PAGE_MARGIN_X;
          margin_y = PAGE_MARGIN_Y;
          pdf1 = emit pdf
            [SetFont TITLE_FONT SUMMARY_TITLE_FONT_SIZE,
             DrawString margin_x (page_height - margin_y) ''Dine-In Summary''];
          start_y = page_height - margin_y - (SUMMARY_TITLE_FONT_SIZE + 12)
      in if dine_in_summary = []
         then emit pdf1
                [SetFont BODY_FONT SUMMARY_BODY_FONT_SIZE,
                 DrawString margin_x start_y ''No dine-in orders.'']
         else
           (let data = [''Name'', ''Number'']
                  # map (\<lambda>(n, c). [n, str_int c]) dine_in_summary;
                available_width = page_width - 2 * margin_x
            in emit pdf1
                 [DrawTable margin_x start_y data
                    [available_width * 0.7, available_width * 0.3]]))"

text \<open>The loop of \<open>build_labels_pdf\<close> over \<open>enumerate(label_cards)\<close>; its state is the
  canvas and the flag \<open>labels_drawn\<close>.\<close>

fun label_loop ::
  "nat \<Rightarrow> label_card list \<Rightarrow> rat \<Rightarrow> canvas \<times> bool \<Rightarrow> canvas \<times> bool" where
  "label_loop label_index [] page_height st = st"
| "label_loop label_index (crd # cards) page_height (pdf, labels_drawn) =
     (let labels_per_page = LABEL_COLUMNS * LABEL_ROWS;
          position = label_index mod labels_per_page;
          column_index = position mod LABEL_COLUMNS;
          row_index = position div LABEL_COLUMNS;
          pdf1 = (if label_index \<noteq> 0 \<and> position = 0 then showPage pdf else pdf);
          label_origin_x = PAGE_MARGIN_X + of_nat column_index * (LABEL_WIDTH + HORIZONTAL_GAP);
          label_top = page_height - PAGE_MARGIN_Y - of_nat row_index * (LABEL_HEIGHT + VERTICAL_GAP)
      in label_loop (Suc label_index) cards page_height
           (draw_label_card pdf1 label_top label_origin_x crd, True))"

text \<open>The document is the list of its pages, each the list of the operators drawn on it.\<close>

definition build_labels_pdf ::
  "(string \<Rightarrow> numeric) \<Rightarrow> dataframe \<Rightarrow> error + draw_op list list" where
  "build_labels_pdf to_numeric dataframe =
     (case prepare_label_cards to_numeric dataframe of
        Inl e \<Rightarrow> Inl e
      | Inr (label_cards, dine_in_summary) \<Rightarrow>
          (case label_loop 0 label_cards (snd letter) (new_canvas, False) of
             (pdf, labels_drawn) \<Rightarrow>
               (let pdf1 = (if labels_drawn then showPage pdf else pdf)
                in Inr (save (draw_dine_in_summary pdf1 dine_in_summary (fst letter) (snd letter))))))"

section \<open>Notions used in the statements\<close>

definition norm_header :: "string \<Rightarrow> string" where
  "norm_header col = str_lower (str_strip col)"

text \<open>The labels of a frame that are strings, in the order of the columns.\<close>

fun is_str :: "label \<Rightarrow> bool" where
  "is_str (Str c) = True"
| "is_str (Number v) = False"

definition label_strings :: "label list \<Rightarrow> string list" where
  "label_strings labels = concat (map (\<lambda>l. case l of Str c \<Rightarrow> [c] | Number v \<Rightarrow> []) labels)"

text \<open>The lookup built from labels that are all strings.\<close>

definition string_lookup :: "string list \<Rightarrow> (string \<rightharpoonup> string)" where
  "string_lookup cols = fold lookup_step cols Map.empty"

text \<open>A canonical field has an accepted alias among the headers when some header, trimmed
  and lower-cased, is one of the spellings listed for the field.\<close>

definition has_alias :: "label list \<Rightarrow> string \<Rightarrow> bool" where
  "has_alias labels field =
     list_ex (\<lambda>col. (norm_header col, field) \<in> set column_aliases) (label_strings labels)"

definition missing_fields :: "label list \<Rightarrow> string list" where
  "missing_fields labels = filter (\<lambda>field. \<not> has_alias labels field) required_fields"

text \<open>A string with letter case and all white space disregarded.\<close>

definition squash :: "string \<Rightarrow> string" where
  "squash s = filter (\<lambda>c. \<not> isspace c) (str_lower s)"

text \<open>The header a canonical field is resolved to: of the aliases of the field, in the
  listed order, the first that some header matches, and of the headers that match this
  alias the last one.\<close>

definition resolved_header :: "string list \<Rightarrow> string \<Rightarrow> string option" where
  "resolved_header cols field =
     (case find (\<lambda>entry. snd entry = field \<and> list_ex (\<lambda>col. norm_header col = fst entry) cols)
             column_aliases of
        None \<Rightarrow> None
      | Some entry \<Rightarrow>
          (case filter (\<lambda>col. norm_header col = fst entry) cols of
             [] \<Rightarrow> None
           | c # cs \<Rightarrow> Some (last (c # cs))))"

text \<open>The value a count cell contributes: the cell converted, a missing value replaced
  by 0, the fraction dropped, a negative value raised to 0.\<close>

definition count_value :: "(string \<Rightarrow> numeric) \<Rightarrow> string \<Rightarrow> int" where
  "count_value to_numeric cell = max 0 (int_of_numeric (fillna0 (to_numeric cell)))"

text \<open>The rows of the three canonical columns whose trimmed name is not empty.\<close>

definition kept_rows :: "string list \<Rightarrow> string list \<Rightarrow> string list \<Rightarrow> (string \<times> string \<times> string) list" where
  "kept_rows ns cs ds = filter (\<lambda>r. str_strip (fst r) \<noteq> []) (zip ns (zip cs ds))"

text \<open>The sums of the carry-out and of the dine-in values of the rows named \<open>k\<close>.\<close>

definition carry_total :: "string \<Rightarrow> aggregated_order list \<Rightarrow> int" where
  "carry_total k rows = sum_list (map (\<lambda>(n, c, d). c) (filter (\<lambda>r. fst r = k) rows))"

definition dine_total :: "string \<Rightarrow> aggregated_order list \<Rightarrow> int" where
  "dine_total k rows = sum_list (map (\<lambda>(n, c, d). d) (filter (\<lambda>r. fst r = k) rows))"

text \<open>The rows the aggregator groups: the kept rows with the name trimmed and the two
  counts coerced.\<close>

definition coerced_rows ::
  "(string \<Rightarrow> numeric) \<Rightarrow> string list \<Rightarrow> string list \<Rightarrow> string list \<Rightarrow> aggregated_order list" where
  "coerced_rows to_numeric ns cs ds =
     map (\<lambda>r. (str_strip (fst r), count_value to_numeric (fst (snd r)),
                count_value to_numeric (snd (snd r))))
       (kept_rows ns cs ds)"

text \<open>The rows and the groups hold 64-bit integers.\<close>

definition int64_rows :: "aggregated_order list \<Rightarrow> bool" where
  "int64_rows rows = list_all (\<lambda>r. in_int64 (fst (snd r)) \<and> in_int64 (snd (snd r))) rows"

text \<open>The operators of a card drawn in the cell of a column and a row, counted from 0
  from the left and from the top of a page.\<close>

definition placed_card :: "nat \<Rightarrow> nat \<Rightarrow> label_card \<Rightarrow> draw_op list" where
  "placed_card column row crd =
     current_page (draw_label_card new_canvas
       (snd letter - PAGE_MARGIN_Y - of_nat row * (LABEL_HEIGHT + VERTICAL_GAP))
       (PAGE_MARGIN_X + of_nat column * (LABEL_WIDTH + HORIZONTAL_GAP)) crd)"

text \<open>The operators of the cards with the indices from \<open>a\<close> up to \<open>b - 1\<close>, each in
  the cell of its index.\<close>

definition drawn_cells :: "label_card list \<Rightarrow> nat \<Rightarrow> nat \<Rightarrow> draw_op list" where
  "drawn_cells cards a b =
     concat (map (\<lambda>j. placed_card ((j mod 30) mod 3) ((j mod 30) div 3) (cards ! j)) [a ..< b])"

section \<open>The schema normalizer: proofs\<close>

lemma header_lookup_loop_eq:
  "header_lookup_loop labels m =
     (if list_all is_str labels then Inr (fold lookup_step (label_strings labels) m)
      else Inl AttributeError)"
  by (induction labels m rule: header_lookup_loop.induct) (auto simp: label_strings_def)

lemma header_lookup_eq:
  "header_lookup labels =
     (if list_all is_str labels then Inr (string_lookup (label_strings labels))
      else Inl AttributeError)"
  by (simp add: header_lookup_def header_lookup_loop_eq string_lookup_def)

lemma lookup_step_apply:
  "lookup_step c m a = (if norm_header c = a then Some c else m a)"
  by (auto simp: lookup_step_def norm_header_def)

lemma lookup_fold_last:
  "fold lookup_step cols m0 a =
     (case filter (\<lambda>col. norm_header col = a) cols of
        [] \<Rightarrow> m0 a
      | c # cs \<Rightarrow> Some (last (c # cs)))"
proof (induction cols arbitrary: m0)
  case Nil
  then show ?case by simp
next
  case (Cons c cols)
  have "fold lookup_step (c # cols) m0 a = fold lookup_step cols (lookup_step c m0) a"
    by simp
  also have "\<dots> = (case filter (\<lambda>col. norm_header col = a) cols of
                      [] \<Rightarrow> lookup_step c m0 a
                    | c # cs \<Rightarrow> Some (last (c # cs)))"
    by (rule Cons.IH)
  also have "\<dots> = (case filter (\<lambda>col. norm_header col = a) (c # cols) of
                      [] \<Rightarrow> m0 a
                    | c # cs \<Rightarrow> Some (last (c # cs)))"
    by (simp add: lookup_step_apply split: list.splits)
  finally show ?case .
qed

lemma string_lookup_last:
  "string_lookup cols a =
     (case filter (\<lambda>col. norm_header col = a) cols of
        [] \<Rightarrow> None
      | c # cs \<Rightarrow> Some (last (c # cs)))"
  by (simp add: string_lookup_def lookup_fold_last)

lemma string_lookup_None: "string_lookup cols a = None \<longleftrightarrow> a \<notin> norm_header ` set cols"
proof (cases "filter (\<lambda>col. norm_header col = a) cols")
  case Nil
  then show ?thesis by (auto simp: string_lookup_last filter_empty_conv)
next
  case (Cons c cs)
  then have "c \<in> set (filter (\<lambda>col. norm_header col = a) cols)" by simp
  then have "a \<in> norm_header ` set cols" by auto
  with Cons show ?thesis by (simp add: string_lookup_last)
qed

lemma string_lookup_Some:
  assumes "string_lookup cols a = Some col"
  shows "col \<in> set cols \<and> norm_header col = a"
proof -
  from assms obtain c cs where f: "filter (\<lambda>col. norm_header col = a) cols = c # cs"
    and l: "col = last (c # cs)"
    by (auto simp: string_lookup_last split: list.splits)
  have "last (c # cs) \<in> set (c # cs)" by (rule last_in_set) simp
  with f l have "col \<in> set (filter (\<lambda>col. norm_header col = a) cols)" by simp
  then show ?thesis by simp
qed

lemma rename_step_apply:
  "rename_step lookup (a, fld) rm f =
     (if fld = f then (case rm f of Some v \<Rightarrow> Some v | None \<Rightarrow> lookup a) else rm f)"
  by (auto simp: rename_step_def split: option.splits)

lemma rename_fold_find:
  "fold (rename_step lookup) al rm f =
     (case rm f of
        Some v \<Rightarrow> Some v
      | None \<Rightarrow>
          (case find (\<lambda>entry. snd entry = f \<and> lookup (fst entry) \<noteq> None) al of
             None \<Rightarrow> None
           | Some entry \<Rightarrow> lookup (fst entry)))"
proof (induction al arbitrary: rm)
  case Nil
  then show ?case by (simp split: option.splits)
next
  case (Cons entry al)
  show ?case
  proof (cases entry)
    case (Pair a fld)
    have "fold (rename_step lookup) (entry # al) rm f
            = fold (rename_step lookup) al (rename_step lookup (a, fld) rm) f"
      by (simp add: Pair)
    also have "\<dots> = (case rename_step lookup (a, fld) rm f of
                        Some v \<Rightarrow> Some v
                      | None \<Rightarrow>
                          (case find (\<lambda>entry. snd entry = f \<and> lookup (fst entry) \<noteq> None) al of
                             None \<Rightarrow> None
                           | Some entry \<Rightarrow> lookup (fst entry)))"
      by (rule Cons.IH)
    also have "\<dots> = (case rm f of
                        Some v \<Rightarrow> Some v
                      | None \<Rightarrow>
                          (case find (\<lambda>entry. snd entry = f \<and> lookup (fst entry) \<noteq> None)
                                  (entry # al) of
                             None \<Rightarrow> None
                           | Some entry \<Rightarrow> lookup (fst entry)))"
      by (cases "rm f"; cases "lookup a"; cases "fld = f")
         (simp_all add: Pair rename_step_apply)
    finally show ?thesis .
  qed
qed

lemma build_rename_map_resolved:
  "build_rename_map (string_lookup cols) field = resolved_header cols field"
proof -
  have p: "(\<lambda>entry. snd entry = field \<and> string_lookup cols (fst entry) \<noteq> None)
         = (\<lambda>entry. snd entry = field \<and> list_ex (\<lambda>col. norm_header col = fst entry) cols)"
    by (auto simp: fun_eq_iff string_lookup_None list_ex_iff)
  show ?thesis
    unfolding build_rename_map_def rename_fold_find p resolved_header_def
    by (simp add: string_lookup_last split: option.splits)
qed

lemma resolved_header_None:
  "resolved_header cols field = None \<longleftrightarrow>
     \<not> list_ex (\<lambda>col. (norm_header col, field) \<in> set column_aliases) cols"
proof -
  have "build_rename_map (string_lookup cols) field = None \<longleftrightarrow>
          (\<forall>entry \<in> set column_aliases.
             \<not> (snd entry = field \<and> string_lookup cols (fst entry) \<noteq> None))"
  proof (cases "find (\<lambda>entry. snd entry = field \<and> string_lookup cols (fst entry) \<noteq> None)
                  column_aliases")
    case None
    have "build_rename_map (string_lookup cols) field = None"
      unfolding build_rename_map_def rename_fold_find None by simp
    moreover from None have "\<forall>entry \<in> set column_aliases.
        \<not> (snd entry = field \<and> string_lookup cols (fst entry) \<noteq> None)"
      unfolding find_None_iff by blast
    ultimately show ?thesis by blast
  next
    case (Some entry)
    then have e: "entry \<in> set column_aliases" "snd entry = field"
      "string_lookup cols (fst entry) \<noteq> None"
      by (auto simp: find_Some_iff)
    have "build_rename_map (string_lookup cols) field = string_lookup cols (fst entry)"
      unfolding build_rename_map_def rename_fold_find Some by simp
    with e show ?thesis by auto
  qed
  also have "\<dots> \<longleftrightarrow> \<not> list_ex (\<lambda>col. (norm_header col, field) \<in> set column_aliases) cols"
    by (auto simp: string_lookup_None list_ex_iff)
  finally show ?thesis by (simp add: build_rename_map_resolved)
qed

lemma resolved_header_Some:
  assumes "resolved_header cols field = Some w"
  shows "w \<in> set cols \<and> (norm_header w, field) \<in> set column_aliases"
proof -
  from assms obtain entry where
    f: "find (\<lambda>entry. snd entry = field \<and> list_ex (\<lambda>col. norm_header col = fst entry) cols)
          column_aliases = Some entry"
    and l: "string_lookup cols (fst entry) = Some w"
    by (auto simp: resolved_header_def string_lookup_last split: option.splits list.splits)
  from f have "entry \<in> set column_aliases" "snd entry = field"
    by (auto simp: find_Some_iff)
  with string_lookup_Some [OF l] show ?thesis by (cases entry) auto
qed

lemma resolved_header_unique:
  assumes w: "resolved_header cols field = Some w"
    and uniq: "\<forall>h' \<in> set cols. (norm_header h', field) \<in> set column_aliases \<longrightarrow> h' = h"
  shows "w = h"
  using resolved_header_Some [OF w] uniq by blast

lemma missing_is_missing_fields:
  assumes "list_all is_str labels"
  shows "filter (\<lambda>field. build_rename_map (string_lookup (label_strings labels)) field = None)
           required_fields
         = missing_fields labels"
  by (simp add: missing_fields_def has_alias_def build_rename_map_resolved resolved_header_None)

lemma normalize_orders_dataframe_eq:
  "normalize_orders_dataframe df =
     (if \<not> list_all is_str (map fst df) then Inl AttributeError
      else if missing_fields (map fst df) = []
      then Inr (rename_columns
                  (rename_dict (build_rename_map (string_lookup (label_strings (map fst df))))) df)
      else Inl (ValueError (''Missing required columns: '' @ join '', '' (missing_fields (map fst df)))))"
  by (simp add: normalize_orders_dataframe_def header_lookup_eq Let_def missing_is_missing_fields)

lemma missing_fields_nonempty:
  "missing_fields labels \<noteq> [] \<longleftrightarrow> (\<exists>field \<in> set required_fields. \<not> has_alias labels field)"
  by (auto simp: missing_fields_def filter_empty_conv)

text \<open>The normalizer on frames whose labels are all strings: it raises if and only if a
  canonical field has no accepted alias among the headers, the message lists every field
  without an alias, and the same error is the result of \<open>_prepare_label_cards\<close> and of
  \<open>build_labels_pdf\<close>, whatever the cells hold.\<close>

lemma schema_error_on_string_labels:
  assumes "list_all is_str (map fst df)"
  shows "((\<exists>e. normalize_orders_dataframe df = Inl e) \<longleftrightarrow>
            (\<exists>field \<in> set required_fields. \<not> has_alias (map fst df) field)) \<and>
         (\<forall>e. normalize_orders_dataframe df = Inl e \<longrightarrow>
            e = ValueError (''Missing required columns: '' @ join '', '' (missing_fields (map fst df))) \<and>
            prepare_label_cards to_numeric df = Inl e \<and>
            build_labels_pdf to_numeric df = Inl e)"
  using assms
  by (auto simp: normalize_orders_dataframe_eq missing_fields_nonempty [symmetric]
      prepare_label_cards_def build_labels_pdf_def)

text \<open>A label that is not a string makes the normalizer raise the error of the call
  \<open>col.strip()\<close>, whatever the other headers are.\<close>

lemma non_string_label_AttributeError:
  assumes "\<not> list_all is_str (map fst df)"
  shows "normalize_orders_dataframe df = Inl AttributeError \<and>
         prepare_label_cards to_numeric df = Inl AttributeError \<and>
         build_labels_pdf to_numeric df = Inl AttributeError"
  using assms
  by (auto simp: normalize_orders_dataframe_eq prepare_label_cards_def build_labels_pdf_def)

text \<open>
  C4 at a failing input: a frame with a header cell that is not a string. With the
  headers \<open>Name\<close>, \<open>Carry Out\<close>, \<open>Dine In\<close> and the number 2024, every canonical field
  has an accepted alias among the headers, yet the normalizer raises (the error of
  \<open>col.strip()\<close>, not the schema error), and so does \<open>build_labels_pdf\<close>; with the
  headers \<open>Customer\<close> and 2024, two fields have no alias and the error raised does not
  list them.
\<close>

theorem non_string_header_raises:
  "has_alias (map fst [(Str ''Name'', [''Ann'']), (Str ''Carry Out'', [''3'']),
                       (Str ''Dine In'', [''0'']), (Number 2024, [''x''])]) ''name'' \<and>
   has_alias (map fst [(Str ''Name'', [''Ann'']), (Str ''Carry Out'', [''3'']),
                       (Str ''Dine In'', [''0'']), (Number 2024, [''x''])]) ''carry_out'' \<and>
   has_alias (map fst [(Str ''Name'', [''Ann'']), (Str ''Carry Out'', [''3'']),
                       (Str ''Dine In'', [''0'']), (Number 2024, [''x''])]) ''dine_in'' \<and>
   normalize_orders_dataframe
       [(Str ''Name'', [''Ann'']), (Str ''Carry Out'', [''3'']),
        (Str ''Dine In'', [''0'']), (Number 2024, [''x''])]
     = Inl AttributeError \<and>
   build_labels_pdf to_numeric_cell
       [(Str ''Name'', [''Ann'']), (Str ''Carry Out'', [''3'']),
        (Str ''Dine In'', [''0'']), (Number 2024, [''x''])]
     = Inl AttributeError \<and>
   missing_fields (map fst [(Str ''Customer'', [''Ann'']), (Number 2024, [''x''])])
     = [''carry_out'', ''dine_in''] \<and>
   normalize_orders_dataframe [(Str ''Customer'', [''Ann'']), (Number 2024, [''x''])]
     = Inl AttributeError"
  by code_simp

lemma column_aliases_functional:
  "(a, f) \<in> set column_aliases \<Longrightarrow> (a, f') \<in> set column_aliases \<Longrightarrow> f = f'"
  by (auto simp: column_aliases_def)

lemma column_aliases_fields:
  "(a, f) \<in> set column_aliases \<Longrightarrow> f \<in> set required_fields"
  by (auto simp: column_aliases_def required_fields_def)

lemma rename_dict_apply:
  "rename_dict rm c =
     (if rm ''dine_in'' = Some c then Some ''dine_in''
      else if rm ''carry_out'' = Some c then Some ''carry_out''
      else if rm ''name'' = Some c then Some ''name'' else None)"
  by (auto simp: rename_dict_def required_fields_def split: option.splits)

lemma rename_dict_resolved:
  assumes rm: "resolved_header cols field = Some w"
  shows "rename_dict (resolved_header cols) w = Some field"
proof -
  let ?rm = "resolved_header cols"
  from resolved_header_Some [OF rm] have al: "(norm_header w, field) \<in> set column_aliases"
    by simp
  have other: "f = field" if "?rm f = Some w" for f
    using resolved_header_Some [OF that] al column_aliases_functional by blast
  from column_aliases_fields [OF al] have fld: "field = ''name'' \<or> field = ''carry_out'' \<or> field = ''dine_in''"
    by (simp add: required_fields_def)
  show ?thesis
  proof (cases "?rm ''dine_in'' = Some w")
    case True
    from other [OF True] True show ?thesis by (simp add: rename_dict_apply)
  next
    case d: False
    show ?thesis
    proof (cases "?rm ''carry_out'' = Some w")
      case True
      from other [OF True] True d show ?thesis by (simp add: rename_dict_apply)
    next
      case c: False
      show ?thesis
      proof (cases "?rm ''name'' = Some w")
        case True
        from other [OF True] True d c show ?thesis by (simp add: rename_dict_apply)
      next
        case False
        with d c rm fld show ?thesis by metis
      qed
    qed
  qed
qed

lemma rename_dict_unresolved:
  assumes al: "(norm_header h, field) \<in> set column_aliases"
    and nw: "resolved_header cols field \<noteq> Some h"
  shows "rename_dict (resolved_header cols) h = None"
proof -
  have "resolved_header cols f \<noteq> Some h" for f
  proof
    assume f: "resolved_header cols f = Some h"
    from resolved_header_Some [OF f] al have "f = field"
      using column_aliases_functional by blast
    with f nw show False by simp
  qed
  then show ?thesis by (simp add: rename_dict_apply)
qed

lemma build_rename_map_resolved_fun:
  "build_rename_map (string_lookup cols) = resolved_header cols"
  by (rule ext) (rule build_rename_map_resolved)

lemma label_strings_set: "c \<in> set (label_strings labels) \<longleftrightarrow> Str c \<in> set labels"
  by (induction labels) (auto simp: label_strings_def split: label.splits)

text \<open>
  C9, as the code has it. Matching ignores letter case and the white space around a
  header, not the white space inside it. In a frame whose labels are all strings, a
  header whose trimmed, lower-cased form is an alias of a canonical field makes the field
  resolved, to one header: of the aliases of the field, in the listed order, the first
  that some header matches decides, and of the headers that match this alias the last
  one is taken (so the header itself, when no other header matches an alias of the
  field). The column under the header taken carries the field's name after the
  normalizer; a matching header that is not taken keeps its label.
\<close>

theorem alias_match_trimmed_lowercase:
  assumes strs: "list_all is_str (map fst df)"
    and h: "(Str h, cells) \<in> set df"
    and al: "(str_lower (str_strip h), field) \<in> set column_aliases"
  shows "\<exists>lookup w.
           header_lookup (map fst df) = Inr lookup \<and>
           build_rename_map lookup field = Some w \<and>
           resolved_header (label_strings (map fst df)) field = Some w \<and>
           ((\<forall>h'. Str h' \<in> fst ` set df \<and> (str_lower (str_strip h'), field) \<in> set column_aliases
                 \<longrightarrow> h' = h) \<longrightarrow> w = h) \<and>
           (\<forall>nd. normalize_orders_dataframe df = Inr nd \<longrightarrow>
              (\<forall>cells'. (Str w, cells') \<in> set df \<longrightarrow> (Str field, cells') \<in> set nd) \<and>
              (h \<noteq> w \<longrightarrow> (Str h, cells) \<in> set nd))"
proof -
  let ?cols = "label_strings (map fst df)"
  let ?rm = "resolved_header ?cols"
  from h have hc: "h \<in> set ?cols" by (force simp: label_strings_set)
  with al have "list_ex (\<lambda>col. (norm_header col, field) \<in> set column_aliases) ?cols"
    by (auto simp: list_ex_iff norm_header_def)
  then obtain w where w: "?rm field = Some w"
    using resolved_header_None [of ?cols field] by auto
  have lk: "header_lookup (map fst df) = Inr (string_lookup ?cols)"
    using strs by (simp add: header_lookup_eq)
  have rm: "build_rename_map (string_lookup ?cols) field = Some w"
    using w by (simp add: build_rename_map_resolved)
  have uq: "w = h"
    if "\<forall>h'. Str h' \<in> fst ` set df \<and> (str_lower (str_strip h'), field) \<in> set column_aliases
          \<longrightarrow> h' = h"
  proof -
    from resolved_header_Some [OF w] have "Str w \<in> set (map fst df)"
      and "(str_lower (str_strip w), field) \<in> set column_aliases"
      by (simp_all add: label_strings_set norm_header_def)
    with that show ?thesis by auto
  qed
  have r: "(\<forall>cells'. (Str w, cells') \<in> set df \<longrightarrow> (Str field, cells') \<in> set nd) \<and>
           (h \<noteq> w \<longrightarrow> (Str h, cells) \<in> set nd)"
    if nd: "normalize_orders_dataframe df = Inr nd" for nd
  proof -
    from nd have e: "nd = rename_columns (rename_dict ?rm) df"
      by (simp add: normalize_orders_dataframe_eq build_rename_map_resolved_fun split: if_splits)
    have a: "(Str field, cells') \<in> set nd" if "(Str w, cells') \<in> set df" for cells'
      using that rename_dict_resolved [OF w] unfolding e rename_columns_def by force
    have b: "(Str h, cells) \<in> set nd" if "h \<noteq> w"
    proof -
      from that w have "?rm field \<noteq> Some h" by simp
      with al have "rename_dict ?rm h = None"
        by (intro rename_dict_unresolved) (simp_all add: norm_header_def)
      with h show ?thesis unfolding e rename_columns_def by force
    qed
    from a b show ?thesis by blast
  qed
  from lk rm w uq r show ?thesis by blast
qed

text \<open>C9 at a frame with the headers \<open>Name\<close> and \<open>Customer\<close>, which both match an alias
  of the field \<open>name\<close>, and a carry-out header with blanks around it and capital letters:
  the alias \<open>name\<close> is listed before \<open>customer\<close>, so the field is resolved to \<open>Name\<close>,
  whose column is renamed, and the column \<open>Customer\<close> keeps its label; the carry-out
  header is the only match of its field and is resolved itself.\<close>

theorem alias_match_trimmed_lowercase_witness:
  "resolved_header (label_strings (map fst
       [(Str ''Name'', [''Ann'']), (Str ''Customer'', [''Bea'']),
        (Str ''  CARRY-Out '', [''3'']), (Str ''Dine In'', [''0''])])) ''name'' = Some ''Name'' \<and>
   resolved_header (label_strings (map fst
       [(Str ''Name'', [''Ann'']), (Str ''Customer'', [''Bea'']),
        (Str ''  CARRY-Out '', [''3'']), (Str ''Dine In'', [''0''])])) ''carry_out''
     = Some ''  CARRY-Out '' \<and>
   (Str ''name'', [''Ann'']) \<in> set
     [(Str ''name'', [''Ann'']), (Str ''Customer'', [''Bea'']),
      (Str ''carry_out'', [''3'']), (Str ''dine_in'', [''0''])] \<and>
   (Str ''Customer'', [''Bea'']) \<in> set
     [(Str ''name'', [''Ann'']), (Str ''Customer'', [''Bea'']),
      (Str ''carry_out'', [''3'']), (Str ''dine_in'', [''0''])] \<and>
   (Str ''carry_out'', [''3'']) \<in> set
     [(Str ''name'', [''Ann'']), (Str ''Customer'', [''Bea'']),
      (Str ''carry_out'', [''3'']), (Str ''dine_in'', [''0''])] \<and>
   normalize_orders_dataframe
       [(Str ''Name'', [''Ann'']), (Str ''Customer'', [''Bea'']),
        (Str ''  CARRY-Out '', [''3'']), (Str ''Dine In'', [''0''])]
     = Inr [(Str ''name'', [''Ann'']), (Str ''Customer'', [''Bea'']),
            (Str ''carry_out'', [''3'']), (Str ''dine_in'', [''0''])]"
proof -
  let ?df = "[(Str ''Name'', [''Ann'']), (Str ''Customer'', [''Bea'']),
        (Str ''  CARRY-Out '', [''3'']), (Str ''Dine In'', [''0''])]"
  let ?nd = "[(Str ''name'', [''Ann'']), (Str ''Customer'', [''Bea'']),
      (Str ''carry_out'', [''3'']), (Str ''dine_in'', [''0''])]"
  have strs: "list_all is_str (map fst ?df)" by simp
  have nd: "normalize_orders_dataframe ?df = Inr ?nd" by code_simp
  have h1: "(Str ''Customer'', [''Bea'']) \<in> set ?df" by simp
  have al1: "(str_lower (str_strip ''Customer''), ''name'') \<in> set column_aliases"
    by code_simp
  have w1: "resolved_header (label_strings (map fst ?df)) ''name'' = Some ''Name''"
    by code_simp
  have n1: "(Str ''Name'', [''Ann'']) \<in> set ?df" by simp
  have ne1: "''Customer'' \<noteq> ''Name''" by simp
  from alias_match_trimmed_lowercase [OF strs h1 al1] w1 nd n1 ne1
  have r1: "(Str ''name'', [''Ann'']) \<in> set ?nd \<and> (Str ''Customer'', [''Bea'']) \<in> set ?nd"
    by (metis option.inject)
  have h2: "(Str ''  CARRY-Out '', [''3'']) \<in> set ?df" by simp
  have al2: "(str_lower (str_strip ''  CARRY-Out ''), ''carry_out'') \<in> set column_aliases"
    by code_simp
  have w2: "resolved_header (label_strings (map fst ?df)) ''carry_out'' = Some ''  CARRY-Out ''"
    by code_simp
  from alias_match_trimmed_lowercase [OF strs h2 al2] w2 nd h2
  have r2: "(Str ''carry_out'', [''3'']) \<in> set ?nd"
    by (metis option.inject)
  from w1 w2 r1 r2 nd show ?thesis by (simp only: simp_thms)
qed

text \<open>
  C9, as the spec states it, fails in two ways. The header \<open>Dine  In\<close>, written with two
  blanks, equals the alias \<open>dine in\<close> once letter case and white space are disregarded,
  yet the normalizer does not resolve it and reports the field \<open>dine_in\<close> missing. And
  the header \<open>Customer\<close> is an alias of the field \<open>name\<close>, yet beside the header \<open>Name\<close>
  it is not resolved to the field: its column keeps the label \<open>Customer\<close>.
\<close>

theorem alias_match_counterexample:
  "(Str ''Dine  In'', [''0'']) \<in> set
     [(Str ''Name'', [''Ann'']), (Str ''Carry Out'', [''1'']), (Str ''Dine  In'', [''0''])] \<and>
   squash ''Dine  In'' = squash ''dine in'' \<and>
   (''dine in'', ''dine_in'') \<in> set column_aliases \<and>
   normalize_orders_dataframe
       [(Str ''Name'', [''Ann'']), (Str ''Carry Out'', [''1'']), (Str ''Dine  In'', [''0''])]
     = Inl (ValueError ''Missing required columns: dine_in'') \<and>
   squash ''Customer'' = squash ''customer'' \<and>
   (''customer'', ''name'') \<in> set column_aliases \<and>
   normalize_orders_dataframe
       [(Str ''Name'', [''Ann'']), (Str ''Customer'', [''Bea'']),
        (Str ''Carry Out'', [''1'']), (Str ''Dine In'', [''0''])]
     = Inr [(Str ''name'', [''Ann'']), (Str ''Customer'', [''Bea'']),
            (Str ''carry_out'', [''1'']), (Str ''dine_in'', [''0''])]"
  by code_simp

section \<open>The label card sequencer: proofs\<close>

lemma required_label_count_ceiling:
  "0 < c \<Longrightarrow> required_label_count c = \<lceil>of_int c / (2 :: rat)\<rceil>"
proof -
  assume "0 < c"
  have "\<lceil>of_int c / (2 :: rat)\<rceil> = - (- c div 2)"
    using ceiling_divide_eq_div [of c 2, where ?'a = rat] by simp
  also have "\<dots> = c div 2 + c mod 2" by presburger
  finally show ?thesis using \<open>0 < c\<close> by (simp add: required_label_count_def)
qed

lemma card_loop_acc:
  "card_loop rows (cards, td, ts) =
     (cards @ concat (map (\<lambda>(n, c, d).
          if 0 < c then LabelCard n (Some c) None None
                 # replicate (nat (required_label_count c - 1)) (LabelCard n None None None)
          else []) rows),
      td + sum_list (map (\<lambda>(n, c, d). if 0 < c then c div 2 else 0) rows),
      ts + sum_list (map (\<lambda>(n, c, d). if 0 < c then c mod 2 else 0) rows))"
  by (induction rows arbitrary: cards td ts) (auto simp: Let_def)


lemma sequence_label_cards_eq:
  "sequence_label_cards aggregated =
     concat (map (\<lambda>(n, c, d).
          if 0 < c then LabelCard n (Some c) None None
                 # replicate (nat (required_label_count c - 1)) (LabelCard n None None None)
          else []) aggregated)
     @ (let td = sum_list (map (\<lambda>(n, c, d). if 0 < c then c div 2 else 0) aggregated);
            ts = sum_list (map (\<lambda>(n, c, d). if 0 < c then c mod 2 else 0) aggregated)
        in if td \<noteq> 0 \<or> ts \<noteq> 0
           then [LabelCard ''Pack Summary'' None (Some td) (Some ts)] else [])"
  by (simp add: sequence_label_cards_def card_loop_acc Let_def)

lemma order_cards_ceiling:
  "(\<lambda>(n, c, d).
          if 0 < c then LabelCard n (Some c) None None
                 # replicate (nat (required_label_count c - 1)) (LabelCard n None None None)
          else []) =
   (\<lambda>(n, c, d).
          if 0 < c then LabelCard n (Some c) None None
                 # replicate (nat \<lceil>of_int c / (2 :: rat)\<rceil> - 1) (LabelCard n None None None)
          else [])"
proof -
  have "nat (required_label_count c - 1) = nat \<lceil>of_int c / (2 :: rat)\<rceil> - 1" if "0 < c" for c
    using required_label_count_ceiling [OF that] by (simp add: nat_diff_distrib')
  then show ?thesis by (auto simp: fun_eq_iff)
qed

text \<open>
  C1. An aggregated order with a positive carry-out total \<open>c\<close> needs
  \<open>required_label_count c\<close> cards, which is the ceiling of \<open>c / 2\<close>, and the sequence
  holds, for the orders in their order, one primary card with the count \<open>c\<close> followed
  by that many minus one cards without a count; an order with no carry-out adds nothing.
  After these blocks comes either nothing or the pack summary card.
\<close>

theorem label_cards_per_order:
  "(0 < c \<longrightarrow>
      required_label_count c = \<lceil>of_int c / (2 :: rat)\<rceil> \<and>
      length (LabelCard n (Some c) None None
                # replicate (nat \<lceil>of_int c / (2 :: rat)\<rceil> - 1) (LabelCard n None None None))
        = nat \<lceil>of_int c / (2 :: rat)\<rceil>) \<and>
   (\<exists>tail. sequence_label_cards aggregated =
        concat (map (\<lambda>(n, c, d).
          if 0 < c then LabelCard n (Some c) None None
                 # replicate (nat \<lceil>of_int c / (2 :: rat)\<rceil> - 1) (LabelCard n None None None)
          else []) aggregated) @ tail \<and>
      (tail = [] \<or> (\<exists>td ts. tail = [LabelCard ''Pack Summary'' None (Some td) (Some ts)])))"
proof -
  have len: "length (LabelCard n (Some c) None None
                # replicate (nat \<lceil>of_int c / (2 :: rat)\<rceil> - 1) (LabelCard n None None None))
        = nat \<lceil>of_int c / (2 :: rat)\<rceil>" if "0 < c"
  proof -
    from that have "0 < required_label_count c"
      by (simp add: required_label_count_def) presburger
    with required_label_count_ceiling [OF that] have "0 < \<lceil>of_int c / (2 :: rat)\<rceil>" by simp
    then show ?thesis by simp
  qed
  show ?thesis
    using len required_label_count_ceiling [of c]
    by (auto simp: sequence_label_cards_eq order_cards_ceiling Let_def)
qed


lemma div_mod_sum_list:
  "sum_list (map (\<lambda>c. c div 2) (cs :: int list)) * 2 + sum_list (map (\<lambda>c. c mod 2) cs)
     = sum_list cs"
  by (induction cs) (auto simp: algebra_simps)

lemma nonneg_totals:
  fixes aggregated :: "aggregated_order list"
  assumes "\<forall>order \<in> set aggregated. 0 \<le> fst (snd order)"
  shows "sum_list (map (\<lambda>(n, c, d). if 0 < c then c div 2 else 0) aggregated)
           = sum_list (map (\<lambda>c. c div 2) (map (\<lambda>order. fst (snd order)) aggregated))"
    and "sum_list (map (\<lambda>(n, c, d). if 0 < c then c mod 2 else 0) aggregated)
           = sum_list (map (\<lambda>c. c mod 2) (map (\<lambda>order. fst (snd order)) aggregated))"
  using assms by (induction aggregated) (auto simp: order.order_iff_strict)

lemma zero_carry_no_cards:
  fixes aggregated :: "aggregated_order list"
  assumes "\<forall>order \<in> set aggregated. 0 \<le> fst (snd order)"
    and "sum_list (map (\<lambda>order. fst (snd order)) aggregated) = 0"
  shows "concat (map (\<lambda>(n, c, d).
          if 0 < c then LabelCard n (Some c) None None
                 # replicate (nat (required_label_count c - 1)) (LabelCard n None None None)
          else []) aggregated) = []"
proof -
  have "\<forall>x \<in> set (map (\<lambda>order. fst (snd order)) aggregated). x = 0"
    using assms sum_list_nonneg_eq_0_iff [of "map (\<lambda>order. fst (snd order)) aggregated"]
    by auto
  then show ?thesis by (auto simp: concat_eq_Nil_conv)
qed

lemma card_loop_no_summary:
  "crd \<in> set (fst (card_loop aggregated ([], 0, 0))) \<Longrightarrow> doubles crd = None \<and> singles crd = None"
  by (auto simp: card_loop_acc split: if_splits)

text \<open>
  C2. With carry-out totals that are not negative (as the aggregator produces them when
  no sum of a group reaches \<open>2 ^ 63\<close>), the running totals are the sums of \<open>c div 2\<close> and of \<open>c mod 2\<close> over the names, twice
  the doubles plus the singles is the sum of the carry-out totals, no card of the loop is
  a summary card, and the sequence ends with exactly one card named \<open>Pack Summary\<close> with
  these totals when one of them is not zero; when both are zero the sequence is empty.
\<close>

theorem pack_summary_totals:
  assumes nonneg: "\<forall>order \<in> set aggregated. 0 \<le> fst (snd order)"
  shows "(let carry = map (\<lambda>order. fst (snd order)) aggregated;
              total_doubles = sum_list (map (\<lambda>c. c div 2) carry);
              total_singles = sum_list (map (\<lambda>c. c mod 2) carry);
              label_cards = fst (card_loop aggregated ([], 0, 0))
          in total_doubles * 2 + total_singles = sum_list carry \<and>
             (\<forall>crd \<in> set label_cards. doubles crd = None \<and> singles crd = None) \<and>
             sequence_label_cards aggregated =
               (if total_doubles \<noteq> 0 \<or> total_singles \<noteq> 0
                then label_cards
                       @ [LabelCard ''Pack Summary'' None (Some total_doubles) (Some total_singles)]
                else []))"
proof -
  let ?carry = "map (\<lambda>order. fst (snd order)) aggregated"
  let ?td = "sum_list (map (\<lambda>c. c div 2) ?carry)"
  let ?ts = "sum_list (map (\<lambda>c. c mod 2) ?carry)"
  let ?cards = "fst (card_loop aggregated ([], 0, 0))"
  have sum: "?td * 2 + ?ts = sum_list ?carry" by (rule div_mod_sum_list)
  have none: "\<forall>crd \<in> set ?cards. doubles crd = None \<and> singles crd = None"
    using card_loop_no_summary by blast
  have seq: "sequence_label_cards aggregated =
      ?cards @ (if ?td \<noteq> 0 \<or> ?ts \<noteq> 0
                then [LabelCard ''Pack Summary'' None (Some ?td) (Some ?ts)] else [])"
    unfolding sequence_label_cards_eq nonneg_totals [OF nonneg] Let_def
    by (simp add: card_loop_acc)
  have empty: "?cards = []" if "?td = 0" "?ts = 0"
  proof -
    from sum that have "sum_list ?carry = 0" by simp
    from zero_carry_no_cards [OF nonneg this] show ?thesis by (simp add: card_loop_acc)
  qed
  show ?thesis
    unfolding Let_def using sum none seq empty by (simp only: split: if_splits) auto
qed


text \<open>C1 at an order of 5 (three cards), an order of 0 (none) and an order of 1 (one).\<close>

theorem label_cards_per_order_witness:
  "(0 :: int) < 5 \<and> required_label_count 5 = 3 \<and>
   (\<exists>tail. sequence_label_cards [(''Bob'', 5, 2), (''Cy'', 0, 1), (''Di'', 1, 0)] =
        [LabelCard ''Bob'' (Some 5) None None, LabelCard ''Bob'' None None None,
         LabelCard ''Bob'' None None None, LabelCard ''Di'' (Some 1) None None] @ tail \<and>
      (tail = [] \<or> (\<exists>td ts. tail = [LabelCard ''Pack Summary'' None (Some td) (Some ts)])))"
proof -
  have c5: "\<lceil>5 / (2 :: rat)\<rceil> = 3" and c1: "\<lceil>1 / (2 :: rat)\<rceil> = 1"
    by (simp_all add: ceiling_eq_iff)
  from label_cards_per_order [of 5 "''Bob''" "[(''Bob'', 5, 2), (''Cy'', 0, 1), (''Di'', 1, 0)]"]
  show ?thesis by (simp add: c5 c1 numeral_2_eq_2)
qed

text \<open>C2 at the orders 5, 0 and 1: two doubles and two singles.\<close>

theorem pack_summary_totals_witness:
  "sequence_label_cards [(''Bob'', 5, 2), (''Cy'', 0, 1), (''Di'', 1, 0)] =
     fst (card_loop [(''Bob'', 5, 2), (''Cy'', 0, 1), (''Di'', 1, 0)] ([], 0, 0))
       @ [LabelCard ''Pack Summary'' None (Some 2) (Some 2)] \<and>
   (2 :: int) * 2 + 2 = sum_list [5, 0, 1]"
  using pack_summary_totals [of "[(''Bob'', 5, 2), (''Cy'', 0, 1), (''Di'', 1, 0)]"]
  by simp

section \<open>The order aggregator: proofs\<close>

lemma wrap64_eq_iff: "wrap64 a = wrap64 b \<longleftrightarrow> a mod 2 ^ 64 = b mod 2 ^ 64"
proof -
  have "(a + 2 ^ 63) mod 2 ^ 64 = (b + 2 ^ 63) mod 2 ^ 64 \<longleftrightarrow> a mod 2 ^ 64 = b mod 2 ^ 64"
    (is "?l \<longleftrightarrow> ?r")
  proof
    assume ?l
    then have "(a + 2 ^ 63 - 2 ^ 63) mod 2 ^ 64 = (b + 2 ^ 63 - 2 ^ 63) mod 2 ^ 64"
      by (rule mod_diff_cong) simp
    then show ?r by simp
  next
    assume ?r
    then show ?l by (rule mod_add_cong) simp
  qed
  then show ?thesis by (simp add: wrap64_def)
qed

lemma wrap64_id: "in_int64 n \<Longrightarrow> wrap64 n = n"
  by (simp add: wrap64_def in_int64_def)

lemma wrap64_in: "in_int64 (wrap64 n)"
proof -
  have "0 \<le> (n + 2 ^ 63) mod 2 ^ 64" "(n + 2 ^ 63) mod 2 ^ 64 < (2 ^ 64 :: int)"
    by simp_all
  then show ?thesis by (simp add: wrap64_def in_int64_def)
qed

lemma wrap64_wrap64: "wrap64 (wrap64 n) = wrap64 n"
  by (rule wrap64_id) (rule wrap64_in)

lemma wrap64_add_left: "wrap64 (wrap64 a + b) = wrap64 (a + b)"
proof -
  have "wrap64 (wrap64 a) = wrap64 a" by (rule wrap64_wrap64)
  then have "wrap64 a mod 2 ^ 64 = a mod 2 ^ 64" by (simp only: wrap64_eq_iff)
  then have "(wrap64 a + b) mod 2 ^ 64 = (a + b) mod 2 ^ 64"
    by (rule mod_add_cong) simp
  then show ?thesis by (simp only: wrap64_eq_iff)
qed

lemma wrap64_add_cong:
  assumes "wrap64 a = wrap64 a'" "wrap64 b = wrap64 b'"
  shows "wrap64 (a + b) = wrap64 (a' + b')"
  using assms unfolding wrap64_eq_iff by (rule mod_add_cong)

lemma keys_add_to_group:
  "fst ` set (add_to_group r acc) = insert (fst r) (fst ` set acc)"
  by (induction r acc rule: add_to_group.induct) auto

lemma distinct_add_to_group:
  "distinct (map fst acc) \<Longrightarrow> distinct (map fst (add_to_group r acc))"
proof (induction r acc rule: add_to_group.induct)
  case (1 n c d)
  then show ?case by simp
next
  case (2 n c d n' c' d' groups)
  then show ?case
    using keys_add_to_group [of "(n, c, d)" groups] by (auto simp: image_iff)
qed

lemma carry_total_Cons: "carry_total k (r # rows) = carry_total k [r] + carry_total k rows"
  by (simp add: carry_total_def)

lemma dine_total_Cons: "dine_total k (r # rows) = dine_total k [r] + dine_total k rows"
  by (simp add: dine_total_def)

lemma carry_total_add_to_group:
  "wrap64 (carry_total k (add_to_group r acc)) = wrap64 (carry_total k acc + carry_total k [r])"
proof (induction r acc rule: add_to_group.induct)
  case (1 n c d)
  then show ?case by (simp add: carry_total_def)
next
  case (2 n c d n' c' d' groups)
  show ?case
  proof (cases "n = n'")
    case True
    have "wrap64 (wrap64 (c' + c) + carry_total k groups) = wrap64 (c' + c + carry_total k groups)"
      by (rule wrap64_add_left)
    with True show ?thesis by (simp add: carry_total_def ac_simps)
  next
    case False
    have "wrap64 (carry_total k [(n', c', d')] + carry_total k (add_to_group (n, c, d) groups))
        = wrap64 (carry_total k [(n', c', d')] + (carry_total k groups + carry_total k [(n, c, d)]))"
      by (rule wrap64_add_cong) (simp_all add: 2 False)
    moreover have "add_to_group (n, c, d) ((n', c', d') # groups)
        = (n', c', d') # add_to_group (n, c, d) groups"
      using False by simp
    moreover have "carry_total k ((n', c', d') # add_to_group (n, c, d) groups)
        = carry_total k [(n', c', d')] + carry_total k (add_to_group (n, c, d) groups)"
      by (rule carry_total_Cons)
    moreover have "carry_total k ((n', c', d') # groups) + carry_total k [(n, c, d)]
        = carry_total k [(n', c', d')] + (carry_total k groups + carry_total k [(n, c, d)])"
      by (simp only: carry_total_Cons [of k "(n', c', d')" groups] add.assoc)
    ultimately show ?thesis by (simp only:)
  qed
qed

lemma dine_total_add_to_group:
  "wrap64 (dine_total k (add_to_group r acc)) = wrap64 (dine_total k acc + dine_total k [r])"
proof (induction r acc rule: add_to_group.induct)
  case (1 n c d)
  then show ?case by (simp add: dine_total_def)
next
  case (2 n c d n' c' d' groups)
  show ?case
  proof (cases "n = n'")
    case True
    have "wrap64 (wrap64 (d' + d) + dine_total k groups) = wrap64 (d' + d + dine_total k groups)"
      by (rule wrap64_add_left)
    with True show ?thesis by (simp add: dine_total_def ac_simps)
  next
    case False
    have "wrap64 (dine_total k [(n', c', d')] + dine_total k (add_to_group (n, c, d) groups))
        = wrap64 (dine_total k [(n', c', d')] + (dine_total k groups + dine_total k [(n, c, d)]))"
      by (rule wrap64_add_cong) (simp_all add: 2 False)
    moreover have "add_to_group (n, c, d) ((n', c', d') # groups)
        = (n', c', d') # add_to_group (n, c, d) groups"
      using False by simp
    moreover have "dine_total k ((n', c', d') # add_to_group (n, c, d) groups)
        = dine_total k [(n', c', d')] + dine_total k (add_to_group (n, c, d) groups)"
      by (rule dine_total_Cons)
    moreover have "dine_total k ((n', c', d') # groups) + dine_total k [(n, c, d)]
        = dine_total k [(n', c', d')] + (dine_total k groups + dine_total k [(n, c, d)])"
      by (simp only: dine_total_Cons [of k "(n', c', d')" groups] add.assoc)
    ultimately show ?thesis by (simp only:)
  qed
qed

lemma int64_rows_add_to_group:
  "in_int64 (fst (snd r)) \<Longrightarrow> in_int64 (snd (snd r)) \<Longrightarrow> int64_rows acc \<Longrightarrow>
     int64_rows (add_to_group r acc)"
  by (induction r acc rule: add_to_group.induct) (auto simp: int64_rows_def wrap64_in)

lemma fold_add_to_group:
  "fst ` set (fold add_to_group rows acc) = fst ` set rows \<union> fst ` set acc"
  "distinct (map fst acc) \<Longrightarrow> distinct (map fst (fold add_to_group rows acc))"
  "wrap64 (carry_total k (fold add_to_group rows acc)) = wrap64 (carry_total k acc + carry_total k rows)"
  "wrap64 (dine_total k (fold add_to_group rows acc)) = wrap64 (dine_total k acc + dine_total k rows)"
  "int64_rows rows \<Longrightarrow> int64_rows acc \<Longrightarrow> int64_rows (fold add_to_group rows acc)"
proof (induction rows arbitrary: acc)
  case Nil
  { case 1 show ?case by simp }
  { case 2 then show ?case by simp }
  { case 3 show ?case by (simp add: carry_total_def) }
  { case 4 show ?case by (simp add: dine_total_def) }
  { case 5 then show ?case by simp }
next
  case (Cons r rows)
  { case 1 show ?case by (auto simp: Cons.IH(1) keys_add_to_group) }
  { case 2 then show ?case by (simp add: Cons.IH(2) distinct_add_to_group) }
  { case 3
    have "wrap64 (carry_total k (add_to_group r acc) + carry_total k rows)
        = wrap64 ((carry_total k acc + carry_total k [r]) + carry_total k rows)"
      by (rule wrap64_add_cong) (simp_all add: carry_total_add_to_group)
    then show ?case
      by (simp add: Cons.IH(3) carry_total_Cons [of k r rows] add.assoc) }
  { case 4
    have "wrap64 (dine_total k (add_to_group r acc) + dine_total k rows)
        = wrap64 ((dine_total k acc + dine_total k [r]) + dine_total k rows)"
      by (rule wrap64_add_cong) (simp_all add: dine_total_add_to_group)
    then show ?case
      by (simp add: Cons.IH(4) dine_total_Cons [of k r rows] add.assoc) }
  { case 5
    then have "in_int64 (fst (snd r))" "in_int64 (snd (snd r))" "int64_rows rows"
      by (simp_all add: int64_rows_def)
    with 5 show ?case
      by (simp add: Cons.IH(5) int64_rows_add_to_group) }
qed

lemma filter_key_distinct:
  "distinct (map fst g) \<Longrightarrow> (k, v) \<in> set g \<Longrightarrow> filter (\<lambda>r. fst r = k) g = [(k, v)]"
proof (induction g)
  case Nil
  then show ?case by simp
next
  case (Cons r g)
  then show ?case
    by (cases "fst r = k") (auto simp: image_iff filter_empty_conv)
qed

lemma groupby_sum_keys:
  "sorted (map fst (groupby_sum rows))"
  "distinct (map fst (groupby_sum rows))"
  "fst ` set (groupby_sum rows) = fst ` set rows"
proof -
  let ?g = "fold add_to_group rows []"
  show "sorted (map fst (groupby_sum rows))"
    by (simp add: groupby_sum_def sorted_sort_key)
  have d: "distinct (map fst ?g)" by (simp add: fold_add_to_group(2))
  then have "inj_on fst (set ?g)" "distinct ?g" by (simp_all add: distinct_map)
  then show "distinct (map fst (groupby_sum rows))"
    by (simp add: groupby_sum_def distinct_map)
  show "fst ` set (groupby_sum rows) = fst ` set rows"
    by (simp add: groupby_sum_def fold_add_to_group(1))
qed

lemma groupby_sum_totals:
  assumes m: "(k, c, d) \<in> set (groupby_sum rows)" and r: "int64_rows rows"
  shows "c = wrap64 (carry_total k rows)" and "d = wrap64 (dine_total k rows)"
proof -
  have f: "filter (\<lambda>r. fst r = k) (groupby_sum rows) = [(k, c, d)]"
    using filter_key_distinct [OF groupby_sum_keys(2) m] .
  have "filter (\<lambda>r. fst r = k) (groupby_sum rows) = filter (\<lambda>r. fst r = k) (fold add_to_group rows [])"
    unfolding groupby_sum_def by (rule sort_key_stable)
  with f have g: "filter (\<lambda>r. fst r = k) (fold add_to_group rows []) = [(k, c, d)]" by simp
  have t: "carry_total k (fold add_to_group rows []) = c" "dine_total k (fold add_to_group rows []) = d"
    by (simp_all add: carry_total_def dine_total_def g)
  have z: "carry_total k [] = 0" "dine_total k [] = 0"
    by (simp_all add: carry_total_def dine_total_def)
  have "int64_rows (fold add_to_group rows [])"
    using r by (rule fold_add_to_group(5)) (simp add: int64_rows_def)
  moreover have "(k, c, d) \<in> set (fold add_to_group rows [])"
    using m by (simp add: groupby_sum_def)
  ultimately have "in_int64 c" "in_int64 d"
    by (auto simp: int64_rows_def list_all_iff)
  then have "wrap64 c = c" "wrap64 d = d" by (simp_all add: wrap64_id)
  with fold_add_to_group(3) [of k rows "[]"] fold_add_to_group(4) [of k rows "[]"] t z
  show "c = wrap64 (carry_total k rows)" and "d = wrap64 (dine_total k rows)"
    by simp_all
qed

lemma coerce_counts_Inr:
  "list_all (\<lambda>cell. is_finite (fillna0 (to_numeric cell))) cells \<Longrightarrow>
     coerce_counts to_numeric cells = Inr (map (count_value to_numeric) cells)"
  by (simp add: coerce_counts_def astype_int_def clip_lower0_def count_value_def list_all_iff comp_def)

lemma coerce_counts_Inl:
  "\<not> list_all (\<lambda>cell. is_finite (fillna0 (to_numeric cell))) cells \<Longrightarrow>
     coerce_counts to_numeric cells
       = Inl (ValueError ''Cannot convert non-finite values (NA or inf) to integer'')"
  by (simp add: coerce_counts_def astype_int_def list_all_iff)

lemma select_rows_columns:
  assumes "length cs = length ns" "length ds = length ns"
  shows "select_rows (map P ns) (map f ns) = map (\<lambda>r. f (fst r)) (filter (\<lambda>r. P (fst r)) (zip ns (zip cs ds)))"
    and "select_rows (map P ns) cs = map (\<lambda>r. fst (snd r)) (filter (\<lambda>r. P (fst r)) (zip ns (zip cs ds)))"
    and "select_rows (map P ns) ds = map (\<lambda>r. snd (snd r)) (filter (\<lambda>r. P (fst r)) (zip ns (zip cs ds)))"
  using assms
proof (induction ns arbitrary: cs ds)
  case Nil
  { case 1 then show ?case by (simp add: select_rows_def) }
  { case 2 then show ?case by (simp add: select_rows_def) }
  { case 3 then show ?case by (simp add: select_rows_def) }
next
  case (Cons n ns)
  { case 1
    then obtain c cs' d ds' where e: "cs = c # cs'" "ds = d # ds'"
      by (metis length_Suc_conv)
    with 1 Cons.IH(1) [of cs' ds'] show ?case by (simp add: select_rows_def) }
  { case 2
    then obtain c cs' d ds' where e: "cs = c # cs'" "ds = d # ds'"
      by (metis length_Suc_conv)
    with 2 Cons.IH(2) [of cs' ds'] show ?case by (simp add: select_rows_def) }
  { case 3
    then obtain c cs' d ds' where e: "cs = c # cs'" "ds = d # ds'"
      by (metis length_Suc_conv)
    with 3 Cons.IH(3) [of cs' ds'] show ?case by (simp add: select_rows_def) }
qed

lemma zip_map3: "zip (map f xs) (zip (map g xs) (map h xs)) = map (\<lambda>x. (f x, g x, h x)) xs"
  by (induction xs) auto

lemma aggregate_orders_eq:
  assumes sel: "getitem nd (Str ''name'') = [ns]" "getitem nd (Str ''carry_out'') = [cs]"
      "getitem nd (Str ''dine_in'') = [ds]"
    and len: "length cs = length ns" "length ds = length ns"
  shows "aggregate_orders to_numeric nd =
     (if list_all (\<lambda>r. is_finite (fillna0 (to_numeric (fst (snd r))))) (kept_rows ns cs ds) \<and>
         list_all (\<lambda>r. is_finite (fillna0 (to_numeric (snd (snd r))))) (kept_rows ns cs ds)
      then Inr (groupby_sum (coerced_rows to_numeric ns cs ds))
      else Inl (ValueError ''Cannot convert non-finite values (NA or inf) to integer''))"
proof -
  let ?P = "\<lambda>n. str_strip n \<noteq> []"
  let ?keep = "map ((\<lambda>n. n \<noteq> []) \<circ> str_strip) ns"
  have keep: "?keep = map ?P ns" by (simp add: comp_def)
  let ?rows = "kept_rows ns cs ds"
  have rows: "?rows = filter (\<lambda>r. ?P (fst r)) (zip ns (zip cs ds))"
    by (simp add: kept_rows_def)
  have n: "select_rows ?keep (map str_strip ns) = map (\<lambda>r. str_strip (fst r)) ?rows"
    unfolding keep rows by (rule select_rows_columns(1) [OF len])
  have c: "select_rows ?keep cs = map (\<lambda>r. fst (snd r)) ?rows"
    unfolding keep rows by (rule select_rows_columns(2) [OF len])
  have d: "select_rows ?keep ds = map (\<lambda>r. snd (snd r)) ?rows"
    unfolding keep rows by (rule select_rows_columns(3) [OF len])
  have lc: "list_all (\<lambda>cell. is_finite (fillna0 (to_numeric cell))) (map (\<lambda>r. fst (snd r)) ?rows)
      = list_all (\<lambda>r. is_finite (fillna0 (to_numeric (fst (snd r))))) ?rows"
    by (simp add: list_all_iff)
  have ld: "list_all (\<lambda>cell. is_finite (fillna0 (to_numeric cell))) (map (\<lambda>r. snd (snd r)) ?rows)
      = list_all (\<lambda>r. is_finite (fillna0 (to_numeric (snd (snd r))))) ?rows"
    by (simp add: list_all_iff)
  show ?thesis
  proof (cases "list_all (\<lambda>r. is_finite (fillna0 (to_numeric (fst (snd r))))) ?rows")
    case False
    with lc have "coerce_counts to_numeric (select_rows ?keep cs)
        = Inl (ValueError ''Cannot convert non-finite values (NA or inf) to integer'')"
      by (simp add: c coerce_counts_Inl)
    with False show ?thesis
      by (simp add: aggregate_orders_def sel Let_def)
  next
    case ct: True
    with lc have cc: "coerce_counts to_numeric (select_rows ?keep cs)
        = Inr (map (count_value to_numeric) (map (\<lambda>r. fst (snd r)) ?rows))"
      by (simp add: c coerce_counts_Inr)
    show ?thesis
    proof (cases "list_all (\<lambda>r. is_finite (fillna0 (to_numeric (snd (snd r))))) ?rows")
      case False
      with ld have "coerce_counts to_numeric (select_rows ?keep ds)
          = Inl (ValueError ''Cannot convert non-finite values (NA or inf) to integer'')"
        by (simp add: d coerce_counts_Inl)
      with False cc show ?thesis
        by (simp add: aggregate_orders_def sel Let_def)
    next
      case True
      with ld have dd: "coerce_counts to_numeric (select_rows ?keep ds)
          = Inr (map (count_value to_numeric) (map (\<lambda>r. snd (snd r)) ?rows))"
        by (simp add: d coerce_counts_Inr)
      have "zip (select_rows ?keep (map str_strip ns))
              (zip (map (count_value to_numeric) (map (\<lambda>r. fst (snd r)) ?rows))
                   (map (count_value to_numeric) (map (\<lambda>r. snd (snd r)) ?rows)))
            = coerced_rows to_numeric ns cs ds"
        unfolding n coerced_rows_def map_map by (simp add: comp_def zip_map3)
      with True ct cc dd show ?thesis
        by (simp add: aggregate_orders_def sel Let_def)
    qed
  qed
qed


lemma coerced_rows_keys:
  assumes "length cs = length ns" "length ds = length ns"
  shows "fst ` set (coerced_rows to_numeric ns cs ds) = {n \<in> str_strip ` set ns. n \<noteq> []}"
proof -
  from assms have "map fst (zip ns (zip cs ds)) = ns" by (simp add: map_fst_zip)
  then have "fst ` set (zip ns (zip cs ds)) = set ns" by (metis set_map)
  then show ?thesis
    by (force simp: coerced_rows_def kept_rows_def image_iff)
qed

lemma coerced_rows_totals:
  assumes "k \<noteq> []"
  shows "carry_total k (coerced_rows to_numeric ns cs ds) =
           sum_list (map (\<lambda>r. count_value to_numeric (fst (snd r)))
             (filter (\<lambda>r. str_strip (fst r) = k) (zip ns (zip cs ds))))"
    and "dine_total k (coerced_rows to_numeric ns cs ds) =
           sum_list (map (\<lambda>r. count_value to_numeric (snd (snd r)))
             (filter (\<lambda>r. str_strip (fst r) = k) (zip ns (zip cs ds))))"
proof -
  have f: "filter (\<lambda>r. str_strip (fst r) = k) (kept_rows ns cs ds)
         = filter (\<lambda>r. str_strip (fst r) = k) (zip ns (zip cs ds))"
    using assms by (auto simp: kept_rows_def intro: filter_cong)
  show "carry_total k (coerced_rows to_numeric ns cs ds) =
           sum_list (map (\<lambda>r. count_value to_numeric (fst (snd r)))
             (filter (\<lambda>r. str_strip (fst r) = k) (zip ns (zip cs ds))))"
    unfolding f [symmetric] by (simp add: carry_total_def coerced_rows_def filter_map comp_def)
  show "dine_total k (coerced_rows to_numeric ns cs ds) =
           sum_list (map (\<lambda>r. count_value to_numeric (snd (snd r)))
             (filter (\<lambda>r. str_strip (fst r) = k) (zip ns (zip cs ds))))"
    unfolding f [symmetric] by (simp add: dine_total_def coerced_rows_def filter_map comp_def)
qed


lemma truncate_rat_in_int64:
  assumes "- (2 ^ 63) \<le> q" "q < 2 ^ 63"
  shows "in_int64 (truncate_rat q)"
proof (cases "0 \<le> q")
  case True
  then have "0 \<le> \<lfloor>q\<rfloor>" by simp
  moreover from assms(2) have "\<lfloor>q\<rfloor> < 2 ^ 63" by (simp add: floor_less_iff)
  ultimately show ?thesis using True by (simp add: truncate_rat_def in_int64_def)
next
  case False
  then have "\<lceil>q\<rceil> \<le> 0" by (simp add: ceiling_le_iff)
  moreover from assms(1) have "- (2 ^ 63) \<le> \<lceil>q\<rceil>" by (simp add: le_ceiling_iff)
  ultimately show ?thesis using False by (simp add: truncate_rat_def in_int64_def)
qed

lemma int64_cast_0: "int64_cast 0 = 0"
  by (simp add: int64_cast_def truncate_rat_def in_int64_def)

lemma count_value_cases:
  "count_value to_numeric cell =
     (case to_numeric cell of Fin q \<Rightarrow> max 0 (int64_cast q) | _ \<Rightarrow> 0)"
  by (cases "to_numeric cell") (simp_all add: count_value_def fillna0_def int64_cast_0)

lemma count_value_NaN: "to_numeric cell = NaN \<Longrightarrow> count_value to_numeric cell = 0"
  by (simp add: count_value_cases)

lemma count_value_negative:
  assumes "to_numeric cell = Fin q" "q < 0"
  shows "count_value to_numeric cell = 0"
proof -
  from assms(2) have "\<lceil>q\<rceil> \<le> 0" by (simp add: ceiling_le_iff)
  then have "truncate_rat q \<le> 0" using assms(2) by (simp add: truncate_rat_def)
  then have "int64_cast q \<le> 0" by (simp add: int64_cast_def)
  then have "max 0 (int64_cast q) = 0" by (rule max.absorb1)
  with assms(1) show ?thesis by (simp add: count_value_cases)
qed

lemma count_value_floor:
  assumes "to_numeric cell = Fin q" "0 \<le> q" "q < 2 ^ 63"
  shows "count_value to_numeric cell = \<lfloor>q\<rfloor>"
proof -
  from assms(2,3) have "in_int64 (truncate_rat q)" by (intro truncate_rat_in_int64) simp_all
  then have "int64_cast q = \<lfloor>q\<rfloor>" using assms(2) by (simp add: int64_cast_def truncate_rat_def)
  moreover from assms(2) have "0 \<le> \<lfloor>q\<rfloor>" by simp
  ultimately show ?thesis using assms(1) by (simp add: count_value_cases)
qed

lemma count_value_range: "0 \<le> count_value to_numeric cell" "in_int64 (count_value to_numeric cell)"
proof -
  show "0 \<le> count_value to_numeric cell" by (simp add: count_value_def)
  have "in_int64 (int_of_numeric x)" for x
    by (cases x) (simp_all add: int64_cast_def in_int64_def)
  then have "in_int64 (int_of_numeric (fillna0 (to_numeric cell)))" .
  then show "in_int64 (count_value to_numeric cell)"
    by (auto simp: count_value_def in_int64_def max_def)
qed

lemma coerced_rows_int64: "int64_rows (coerced_rows to_numeric ns cs ds)"
  by (simp add: int64_rows_def coerced_rows_def list_all_iff count_value_range)

text \<open>
  C10, as the code has it. In a column without infinite values the coercion succeeds. A
  cell that is no number gives 0. A cell that is a finite number \<open>q\<close> below \<open>2 ^ 63\<close>
  is not treated as no number: it gives \<open>q\<close> without its fractional part when \<open>q\<close> is
  not negative (2.9 gives 2), and 0 when \<open>q\<close> is negative.
\<close>

theorem fractional_counts_truncate:
  assumes "list_all (\<lambda>cell. is_finite (fillna0 (to_numeric cell))) cells"
  shows "\<exists>xs. coerce_counts to_numeric cells = Inr xs \<and> length xs = length cells \<and>
           (\<forall>i < length cells.
              (to_numeric (cells ! i) = NaN \<longrightarrow> xs ! i = 0) \<and>
              (\<forall>q. to_numeric (cells ! i) = Fin q \<and> q < 2 ^ 63 \<longrightarrow>
                 xs ! i = (if 0 \<le> q then \<lfloor>q\<rfloor> else 0)))"
proof -
  let ?xs = "map (count_value to_numeric) cells"
  have "coerce_counts to_numeric cells = Inr ?xs" by (rule coerce_counts_Inr [OF assms])
  moreover have "length ?xs = length cells" by simp
  moreover have "(to_numeric (cells ! i) = NaN \<longrightarrow> ?xs ! i = 0) \<and>
              (\<forall>q. to_numeric (cells ! i) = Fin q \<and> q < 2 ^ 63 \<longrightarrow>
                 ?xs ! i = (if 0 \<le> q then \<lfloor>q\<rfloor> else 0))"
    if "i < length cells" for i
  proof -
    have "?xs ! i = count_value to_numeric (cells ! i)" using that by simp
    moreover have "count_value to_numeric (cells ! i) = 0" if "to_numeric (cells ! i) = NaN"
      using that by (rule count_value_NaN)
    moreover have "count_value to_numeric (cells ! i) = (if 0 \<le> q then \<lfloor>q\<rfloor> else 0)"
      if "to_numeric (cells ! i) = Fin q" "q < 2 ^ 63" for q
    proof (cases "0 \<le> q")
      case True
      with count_value_floor [of to_numeric "cells ! i" q] that show ?thesis by simp
    next
      case False
      then have "q < 0" by simp
      with count_value_negative [of to_numeric "cells ! i" q] that False show ?thesis by simp
    qed
    ultimately show ?thesis by (simp only:) blast
  qed
  ultimately show ?thesis by blast
qed

lemma to_numeric_cell_examples:
  "to_numeric_cell ''2.9'' = Fin (29 / 10)"
  "to_numeric_cell ''abc'' = NaN"
  "to_numeric_cell ''-1.5'' = Fin (- 15 / 10)"
  "to_numeric_cell ''7'' = Fin 7"
  "to_numeric_cell [] = NaN"
  by (simp_all add: to_numeric_cell_def parse_decimal_def split_sign_def split_fraction_def
      split_exponent_def c_isspace_def is_digit_def digits_value_def decimal_value_def
      str_lower_def lower_char_def)

text \<open>C10 at the cells 2.9, abc, -1.5, 7 and the empty cell.\<close>

theorem fractional_counts_truncate_witness:
  "coerce_counts to_numeric_cell [''2.9'', ''abc'', ''-1.5'', ''7'', []] = Inr [2, 0, 0, 7, 0]"
proof -
  let ?cells = "[''2.9'', ''abc'', ''-1.5'', ''7'', []]"
  have fin: "list_all (\<lambda>cell. is_finite (fillna0 (to_numeric_cell cell))) ?cells"
    by (simp add: to_numeric_cell_examples fillna0_def)
  have fl: "\<lfloor>29 / 10 :: rat\<rfloor> = 2" by (simp add: floor_eq_iff)
  from fractional_counts_truncate [OF fin] obtain xs where
    c: "coerce_counts to_numeric_cell ?cells = Inr xs" and l: "length xs = length ?cells"
    and x: "\<And>i. i < length ?cells \<Longrightarrow>
              (to_numeric_cell (?cells ! i) = NaN \<longrightarrow> xs ! i = 0) \<and>
              (\<forall>q. to_numeric_cell (?cells ! i) = Fin q \<and> q < 2 ^ 63 \<longrightarrow>
                 xs ! i = (if 0 \<le> q then \<lfloor>q\<rfloor> else 0))"
    by blast
  have nan: "xs ! i = 0" if "i < length ?cells" "to_numeric_cell (?cells ! i) = NaN" for i
    using x [OF that(1)] that(2) by blast
  have fn: "xs ! i = (if 0 \<le> q then \<lfloor>q\<rfloor> else 0)"
    if "i < length ?cells" "to_numeric_cell (?cells ! i) = Fin q" "q < 2 ^ 63" for i q
    using x [OF that(1)] that(2,3) by blast
  have x0: "xs ! 0 = 2"
    using fn [of 0 "29 / 10"] by (simp add: to_numeric_cell_examples fl)
  have x1: "xs ! 1 = 0"
    using nan [of 1] by (simp add: to_numeric_cell_examples)
  have x2: "xs ! 2 = 0"
    using fn [of 2 "- 15 / 10"] by (simp add: to_numeric_cell_examples)
  have x3: "xs ! 3 = 7"
    using fn [of 3 7] by (simp add: to_numeric_cell_examples)
  have x4: "xs ! 4 = 0"
    using nan [of 4] by (simp add: to_numeric_cell_examples)
  from l obtain a b c' d e where xs: "xs = [a, b, c', d, e]"
    by (auto simp: length_Suc_conv numeral_eq_Suc)
  from x0 x1 x2 x3 x4 have "xs = [2, 0, 0, 7, 0]" unfolding xs by simp
  with c show ?thesis by simp
qed

lemma coerce_counts_negative_example:
  "coerce_counts to_numeric_cell [''-1.5''] = Inr [0]"
proof -
  have "count_value to_numeric_cell ''-1.5'' = 0"
    by (rule count_value_negative [of _ _ "- 15 / 10"]) (simp_all add: to_numeric_cell_examples)
  moreover have "coerce_counts to_numeric_cell [''-1.5'']
      = Inr (map (count_value to_numeric_cell) [''-1.5''])"
    by (rule coerce_counts_Inr) (simp add: to_numeric_cell_examples fillna0_def)
  ultimately show ?thesis by simp
qed

lemma to_numeric_cell_large:
  "to_numeric_cell ''100000000000000000000.5'' = Fin (200000000000000000001 / 2)"
  by (simp add: to_numeric_cell_def parse_decimal_def split_sign_def split_fraction_def
      split_exponent_def c_isspace_def is_digit_def digits_value_def decimal_value_def
      str_lower_def lower_char_def)

lemma coerce_counts_large_example:
  "coerce_counts to_numeric_cell [''100000000000000000000.5''] = Inr [0]"
proof -
  have "\<lfloor>200000000000000000001 / 2 :: rat\<rfloor> = 100000000000000000000"
    by (simp add: floor_eq_iff)
  then have "int64_cast (200000000000000000001 / 2) = - (2 ^ 63)"
    by (simp add: int64_cast_def truncate_rat_def in_int64_def)
  then have "count_value to_numeric_cell ''100000000000000000000.5'' = 0"
    by (simp add: count_value_cases to_numeric_cell_large)
  moreover have "coerce_counts to_numeric_cell [''100000000000000000000.5'']
      = Inr (map (count_value to_numeric_cell) [''100000000000000000000.5''])"
    by (rule coerce_counts_Inr) (simp add: to_numeric_cell_large fillna0_def)
  ultimately show ?thesis by simp
qed

text \<open>
  C10, as the spec states it, fails in two ways. The cell \<open>-1.5\<close> is a number for the
  conversion, and it becomes 0: not only the cells that are no number do. And the cell
  \<open>100000000000000000000.5\<close> is a number with a fractional part whose integer part is
  no 64-bit integer: the cast does not give the number without its fractional part.
\<close>

theorem fractional_counts_counterexample:
  "to_numeric_cell ''-1.5'' = Fin (- 15 / 10) \<and>
   coerce_counts to_numeric_cell [''-1.5''] = Inr [0] \<and>
   to_numeric_cell ''100000000000000000000.5'' = Fin (200000000000000000001 / 2) \<and>
   coerce_counts to_numeric_cell [''100000000000000000000.5'']
     \<noteq> Inr [100000000000000000000]"
  by (simp add: to_numeric_cell_examples coerce_counts_negative_example to_numeric_cell_large
      coerce_counts_large_example)

lemma sum_count_value_nonneg:
  "0 \<le> sum_list (map (\<lambda>r. count_value to_numeric (f r)) rows)"
  by (rule sum_list_nonneg) (auto simp: count_value_range)

lemma wrap64_nonneg_small: "0 \<le> n \<Longrightarrow> n < 2 ^ 63 \<Longrightarrow> wrap64 n = n"
  by (rule wrap64_id) (simp add: in_int64_def)

lemma aggregate_orders_totals:
  assumes sel: "getitem nd (Str ''name'') = [ns]" "getitem nd (Str ''carry_out'') = [cs]"
      "getitem nd (Str ''dine_in'') = [ds]"
    and len: "length cs = length ns" "length ds = length ns"
    and ag: "aggregate_orders to_numeric nd = Inr aggregated"
    and m: "(n, c, d) \<in> set aggregated"
  shows "c = wrap64 (sum_list (map (\<lambda>r. count_value to_numeric (fst (snd r)))
                  (filter (\<lambda>r. str_strip (fst r) = n) (zip ns (zip cs ds)))))"
    and "d = wrap64 (sum_list (map (\<lambda>r. count_value to_numeric (snd (snd r)))
                  (filter (\<lambda>r. str_strip (fst r) = n) (zip ns (zip cs ds)))))"
    and "n \<in> str_strip ` set ns" and "n \<noteq> []"
proof -
  let ?rows = "coerced_rows to_numeric ns cs ds"
  from ag have agg: "aggregated = groupby_sum ?rows"
    unfolding aggregate_orders_eq [OF sel len] by (simp split: if_splits)
  have keys: "set (map fst aggregated) = {n \<in> str_strip ` set ns. n \<noteq> []}"
    using groupby_sum_keys(3) [of ?rows] coerced_rows_keys [OF len, of to_numeric]
    by (simp add: agg)
  from m have "n \<in> set (map fst aggregated)" by force
  with keys show "n \<in> str_strip ` set ns" and ne: "n \<noteq> []" by simp_all
  from m have m': "(n, c, d) \<in> set (groupby_sum ?rows)" by (simp add: agg)
  have "c = wrap64 (carry_total n ?rows)" "d = wrap64 (dine_total n ?rows)"
    using groupby_sum_totals [OF m' coerced_rows_int64] by simp_all
  with coerced_rows_totals [OF ne, of to_numeric ns cs ds]
  show "c = wrap64 (sum_list (map (\<lambda>r. count_value to_numeric (fst (snd r)))
                  (filter (\<lambda>r. str_strip (fst r) = n) (zip ns (zip cs ds)))))"
    and "d = wrap64 (sum_list (map (\<lambda>r. count_value to_numeric (snd (snd r)))
                  (filter (\<lambda>r. str_strip (fst r) = n) (zip ns (zip cs ds)))))"
    by simp_all
qed

lemma aggregate_orders_keys:
  assumes sel: "getitem nd (Str ''name'') = [ns]" "getitem nd (Str ''carry_out'') = [cs]"
      "getitem nd (Str ''dine_in'') = [ds]"
    and len: "length cs = length ns" "length ds = length ns"
    and ag: "aggregate_orders to_numeric nd = Inr aggregated"
  shows "sorted (map fst aggregated)" and "distinct (map fst aggregated)"
    and "set (map fst aggregated) = {n \<in> str_strip ` set ns. n \<noteq> []}"
proof -
  let ?rows = "coerced_rows to_numeric ns cs ds"
  from ag have agg: "aggregated = groupby_sum ?rows"
    unfolding aggregate_orders_eq [OF sel len] by (simp split: if_splits)
  show "sorted (map fst aggregated)" "distinct (map fst aggregated)"
    unfolding agg by (rule groupby_sum_keys)+
  show "set (map fst aggregated) = {n \<in> str_strip ` set ns. n \<noteq> []}"
    using groupby_sum_keys(3) [of ?rows] coerced_rows_keys [OF len, of to_numeric]
    by (simp add: agg)
qed

text \<open>
  C6, as the code has it. For a normalized frame with one column for each canonical
  field, the aggregate is ordered ascending by name (strings compared by code point) with
  every name once; its names are the trimmed, non-empty names of the rows, compared by
  equality of strings (so \<open>Alice\<close> and \<open>alice\<close> are two groups); and the totals of a
  name are the sums of the coerced carry-out and dine-in cells over the rows with that
  trimmed name, added as 64-bit integers: a total is the sum when the sum is below
  \<open>2 ^ 63\<close>, and the sum wrapped around otherwise.
\<close>

theorem orders_grouped_by_trimmed_name:
  assumes sel: "getitem nd (Str ''name'') = [ns]" "getitem nd (Str ''carry_out'') = [cs]"
      "getitem nd (Str ''dine_in'') = [ds]"
    and len: "length cs = length ns" "length ds = length ns"
    and ag: "aggregate_orders to_numeric nd = Inr aggregated"
  shows "sorted (map fst aggregated) \<and> distinct (map fst aggregated) \<and>
         set (map fst aggregated) = {n \<in> str_strip ` set ns. n \<noteq> []} \<and>
         (\<forall>(n, c, d) \<in> set aggregated.
            (let carry_sum = sum_list (map (\<lambda>r. count_value to_numeric (fst (snd r)))
                    (filter (\<lambda>r. str_strip (fst r) = n) (zip ns (zip cs ds))));
                 dine_sum = sum_list (map (\<lambda>r. count_value to_numeric (snd (snd r)))
                    (filter (\<lambda>r. str_strip (fst r) = n) (zip ns (zip cs ds))))
             in c = wrap64 carry_sum \<and> d = wrap64 dine_sum \<and>
                (carry_sum < 2 ^ 63 \<longrightarrow> c = carry_sum) \<and>
                (dine_sum < 2 ^ 63 \<longrightarrow> d = dine_sum)))"
proof -
  have tot: "(let carry_sum = sum_list (map (\<lambda>r. count_value to_numeric (fst (snd r)))
                    (filter (\<lambda>r. str_strip (fst r) = n) (zip ns (zip cs ds))));
                 dine_sum = sum_list (map (\<lambda>r. count_value to_numeric (snd (snd r)))
                    (filter (\<lambda>r. str_strip (fst r) = n) (zip ns (zip cs ds))))
             in c = wrap64 carry_sum \<and> d = wrap64 dine_sum \<and>
                (carry_sum < 2 ^ 63 \<longrightarrow> c = carry_sum) \<and>
                (dine_sum < 2 ^ 63 \<longrightarrow> d = dine_sum))"
    if m: "(n, c, d) \<in> set aggregated" for n c d
  proof -
    let ?cs = "sum_list (map (\<lambda>r. count_value to_numeric (fst (snd r)))
                    (filter (\<lambda>r. str_strip (fst r) = n) (zip ns (zip cs ds))))"
    let ?ds = "sum_list (map (\<lambda>r. count_value to_numeric (snd (snd r)))
                    (filter (\<lambda>r. str_strip (fst r) = n) (zip ns (zip cs ds))))"
    have c: "c = wrap64 ?cs" and d: "d = wrap64 ?ds"
      using aggregate_orders_totals(1,2) [OF sel len ag m] .
    have "0 \<le> ?cs" "0 \<le> ?ds" by (rule sum_count_value_nonneg)+
    then have "?cs < 2 ^ 63 \<longrightarrow> wrap64 ?cs = ?cs" "?ds < 2 ^ 63 \<longrightarrow> wrap64 ?ds = ?ds"
      by (simp_all add: wrap64_nonneg_small)
    with c d show ?thesis unfolding Let_def by simp
  qed
  from aggregate_orders_keys [OF sel len ag] tot show ?thesis by blast
qed

text \<open>C6 at rows named \<open>bob\<close>, \<open>alice\<close>, \<open>Alice\<close> (twice, once with a blank after it)
  and a blank name.\<close>

theorem orders_grouped_by_trimmed_name_witness:
  "aggregate_orders to_numeric_cell
      [(Str ''name'', ['' bob'', ''alice'', ''Alice '', ''  '', ''Alice'']),
       (Str ''carry_out'', [''1'', ''1'', ''3'', ''9'', ''2'']),
       (Str ''dine_in'', [''0'', ''0'', ''2'', ''9'', ''x''])]
     = Inr [(''Alice'', 5, 2), (''alice'', 1, 0), (''bob'', 1, 0)] \<and>
   sorted (map fst [(''Alice'', 5 :: int, 2 :: int), (''alice'', 1, 0), (''bob'', 1, 0)]) \<and>
   distinct (map fst [(''Alice'', 5 :: int, 2 :: int), (''alice'', 1, 0), (''bob'', 1, 0)])"
proof -
  let ?nd = "[(Str ''name'', ['' bob'', ''alice'', ''Alice '', ''  '', ''Alice'']),
       (Str ''carry_out'', [''1'', ''1'', ''3'', ''9'', ''2'']),
       (Str ''dine_in'', [''0'', ''0'', ''2'', ''9'', ''x''])]"
  have ag: "aggregate_orders to_numeric_cell ?nd
      = Inr [(''Alice'', 5, 2), (''alice'', 1, 0), (''bob'', 1, 0)]"
    by code_simp
  have sel: "getitem ?nd (Str ''name'') = [['' bob'', ''alice'', ''Alice '', ''  '', ''Alice'']]"
    "getitem ?nd (Str ''carry_out'') = [[''1'', ''1'', ''3'', ''9'', ''2'']]"
    "getitem ?nd (Str ''dine_in'') = [[''0'', ''0'', ''2'', ''9'', ''x'']]"
    by (simp_all add: getitem_def)
  from orders_grouped_by_trimmed_name [OF sel _ _ ag] ag show ?thesis
    by simp
qed

text \<open>
  C6, as the spec states it, fails: two rows named \<open>Ann\<close> with the carry-out cells
  \<open>5e18\<close> are coerced to 5000000000000000000 each, and the total of the group is not
  their sum 10000000000000000000 but that sum less \<open>2 ^ 64\<close>.
\<close>

theorem group_sum_wraps_counterexample:
  "coerce_counts to_numeric_cell [''5e18'', ''5e18'']
     = Inr [5000000000000000000, 5000000000000000000] \<and>
   aggregate_orders to_numeric_cell
      [(Str ''name'', [''Ann'', ''Ann'']),
       (Str ''carry_out'', [''5e18'', ''5e18'']),
       (Str ''dine_in'', [''0'', ''0''])]
     = Inr [(''Ann'', - 8446744073709551616, 0)]"
  by code_simp

text \<open>
  C5 at a failing input. A carry-out cell \<open>inf\<close> is a number for the conversion, is not
  replaced by \<open>fillna\<close>, and the cast to integers refuses it: the aggregator raises,
  and so does \<open>build_labels_pdf\<close>.
\<close>

theorem infinite_count_cell_raises:
  "aggregate_orders to_numeric_cell
      [(Str ''name'', [''Ann'']), (Str ''carry_out'', [''inf'']), (Str ''dine_in'', [''0''])]
     = Inl (ValueError ''Cannot convert non-finite values (NA or inf) to integer'') \<and>
   build_labels_pdf to_numeric_cell
      [(Str ''Name'', [''Ann'']), (Str ''Carry Out'', [''inf'']), (Str ''Dine In'', [''0''])]
     = Inl (ValueError ''Cannot convert non-finite values (NA or inf) to integer'')"
  by code_simp

text \<open>The totals of the aggregate are not negative when no sum of a group reaches
  \<open>2 ^ 63\<close>.\<close>

lemma aggregate_orders_nonneg:
  assumes sel: "getitem nd (Str ''name'') = [ns]" "getitem nd (Str ''carry_out'') = [cs]"
      "getitem nd (Str ''dine_in'') = [ds]"
    and len: "length cs = length ns" "length ds = length ns"
    and ag: "aggregate_orders to_numeric nd = Inr aggregated"
    and small: "\<And>n. sum_list (map (\<lambda>r. count_value to_numeric (fst (snd r)))
                  (filter (\<lambda>r. str_strip (fst r) = n) (zip ns (zip cs ds)))) < 2 ^ 63"
  shows "\<forall>order \<in> set aggregated. 0 \<le> fst (snd order)"
proof
  fix order assume m: "order \<in> set aggregated"
  obtain n c d where o: "order = (n, c, d)" by (cases order)
  let ?cs = "sum_list (map (\<lambda>r. count_value to_numeric (fst (snd r)))
                  (filter (\<lambda>r. str_strip (fst r) = n) (zip ns (zip cs ds))))"
  from m o have "c = wrap64 ?cs" using aggregate_orders_totals(1) [OF sel len ag] by simp
  moreover have "0 \<le> ?cs" by (rule sum_count_value_nonneg)
  ultimately have "c = ?cs" "0 \<le> ?cs" using small [of n] by (simp_all add: wrap64_nonneg_small)
  with o show "0 \<le> fst (snd order)" by simp
qed

section \<open>The dine-in summary: proofs\<close>

lemma aggregate_orders_is_groupby:
  assumes "aggregate_orders to_numeric nd = Inr aggregated"
  shows "\<exists>rows. aggregated = groupby_sum rows"
  using assms
  by (auto simp: aggregate_orders_def Let_def split: list.splits sum.splits)

lemma aggregate_orders_sorted:
  assumes "aggregate_orders to_numeric nd = Inr aggregated"
  shows "sorted (map fst aggregated)" and "distinct (map fst aggregated)"
  using aggregate_orders_is_groupby [OF assms] groupby_sum_keys by auto

lemma sorted_filter_keys:
  "sorted (map fst xs) \<Longrightarrow> sorted (map fst (filter P xs))"
  by (induction xs) auto

lemma distinct_filter_keys:
  "distinct (map fst xs) \<Longrightarrow> distinct (map fst (filter P xs))"
  by (induction xs) auto

lemma dine_summary_of_keys:
  "map fst (dine_summary_of aggregated) = map fst (filter (\<lambda>(n, c, d). 0 < d) aggregated)"
  by (induction aggregated) (auto simp: dine_summary_of_def)

lemma draw_dine_in_summary_page:
  "current_page (draw_dine_in_summary new_canvas summary page_width page_height) =
     [SetFont TITLE_FONT SUMMARY_TITLE_FONT_SIZE,
      DrawString PAGE_MARGIN_X (page_height - PAGE_MARGIN_Y) ''Dine-In Summary'']
     @ (if summary = []
        then [SetFont BODY_FONT SUMMARY_BODY_FONT_SIZE,
              DrawString PAGE_MARGIN_X (page_height - PAGE_MARGIN_Y - (SUMMARY_TITLE_FONT_SIZE + 12))
                ''No dine-in orders.'']
        else [DrawTable PAGE_MARGIN_X (page_height - PAGE_MARGIN_Y - (SUMMARY_TITLE_FONT_SIZE + 12))
                ([''Name'', ''Number''] # map (\<lambda>(n, c). [n, str_int c]) summary)
                [(page_width - 2 * PAGE_MARGIN_X) * (7 / 10),
                 (page_width - 2 * PAGE_MARGIN_X) * (3 / 10)]])"
  by (simp add: draw_dine_in_summary_def Let_def emit_def new_canvas_def)

text \<open>
  C8. The dine-in summary holds, in the order of the aggregate (ascending by name, each
  name once), one entry for every aggregated name with a positive dine-in total and no
  other entry. The summary page starts with the title; with no entry it shows the message
  \<open>No dine-in orders.\<close> and no table, otherwise one table whose first row is
  \<open>Name\<close>, \<open>Number\<close>, followed by one row per entry, with column widths of 70 and 30
  percent of the page width less the two margins.
\<close>

theorem dine_in_summary_entries:
  assumes "prepare_label_cards to_numeric df = Inr (label_cards, dine_in_summary)"
  shows "(\<exists>normalized aggregated.
            normalize_orders_dataframe df = Inr normalized \<and>
            aggregate_orders to_numeric normalized = Inr aggregated \<and>
            sorted (map fst aggregated) \<and> distinct (map fst aggregated) \<and>
            dine_in_summary = map (\<lambda>(n, c, d). (n, d)) (filter (\<lambda>(n, c, d). 0 < d) aggregated)) \<and>
         sorted (map fst dine_in_summary) \<and> distinct (map fst dine_in_summary) \<and>
         (\<forall>(n, d) \<in> set dine_in_summary. 0 < d) \<and>
         current_page (draw_dine_in_summary new_canvas dine_in_summary page_width page_height) =
           [SetFont TITLE_FONT SUMMARY_TITLE_FONT_SIZE,
            DrawString PAGE_MARGIN_X (page_height - PAGE_MARGIN_Y) ''Dine-In Summary'']
           @ (if dine_in_summary = []
              then [SetFont BODY_FONT SUMMARY_BODY_FONT_SIZE,
                    DrawString PAGE_MARGIN_X
                      (page_height - PAGE_MARGIN_Y - (SUMMARY_TITLE_FONT_SIZE + 12))
                      ''No dine-in orders.'']
              else [DrawTable PAGE_MARGIN_X
                      (page_height - PAGE_MARGIN_Y - (SUMMARY_TITLE_FONT_SIZE + 12))
                      ([''Name'', ''Number''] # map (\<lambda>(n, c). [n, str_int c]) dine_in_summary)
                      [(page_width - 2 * PAGE_MARGIN_X) * (7 / 10),
                       (page_width - 2 * PAGE_MARGIN_X) * (3 / 10)]])"
proof -
  from assms obtain normalized aggregated where
    nd: "normalize_orders_dataframe df = Inr normalized"
    and ag: "aggregate_orders to_numeric normalized = Inr aggregated"
    and ds: "dine_in_summary = dine_summary_of aggregated"
    by (auto simp: prepare_label_cards_def split: sum.splits)
  note keys = aggregate_orders_sorted [OF ag]
  have s: "sorted (map fst dine_in_summary)"
    unfolding ds dine_summary_of_keys using keys(1) by (rule sorted_filter_keys)
  have d: "distinct (map fst dine_in_summary)"
    unfolding ds dine_summary_of_keys using keys(2) by (rule distinct_filter_keys)
  have p: "\<forall>(n, d) \<in> set dine_in_summary. 0 < d"
    by (auto simp: ds dine_summary_of_def)
  from nd ag keys ds have "\<exists>normalized aggregated.
            normalize_orders_dataframe df = Inr normalized \<and>
            aggregate_orders to_numeric normalized = Inr aggregated \<and>
            sorted (map fst aggregated) \<and> distinct (map fst aggregated) \<and>
            dine_in_summary = map (\<lambda>(n, c, d). (n, d)) (filter (\<lambda>(n, c, d). 0 < d) aggregated)"
    unfolding dine_summary_of_def by blast
  with s d p show ?thesis
    by (simp only: draw_dine_in_summary_page simp_thms)
qed

lemma str_int_examples: "str_int 2 = ''2''" "str_int 1 = ''1''" "str_int 5 = ''5''"
  by code_simp+

text \<open>C8 at three customers, two of them with a dine-in total.\<close>

theorem dine_in_summary_entries_witness:
  "prepare_label_cards to_numeric_cell
      [(Str ''Customer'', [''Cy'', ''Ann'', ''Bo'']), (Str ''carryout'', [''1'', ''0'', ''2'']),
       (Str ''Dine-In'', [''1'', ''2'', ''0''])]
     = Inr ([LabelCard ''Bo'' (Some 2) None None, LabelCard ''Cy'' (Some 1) None None,
             LabelCard ''Pack Summary'' None (Some 1) (Some 1)],
            [(''Ann'', 2), (''Cy'', 1)]) \<and>
   sorted (map fst [(''Ann'', 2 :: int), (''Cy'', 1)]) \<and>
   current_page (draw_dine_in_summary new_canvas [(''Ann'', 2), (''Cy'', 1)] 612 792) =
     [SetFont ''Helvetica-Bold'' 18,
      DrawString (72 / 5) (3816 / 5) ''Dine-In Summary'',
      DrawTable (72 / 5) (3666 / 5) [[''Name'', ''Number''], [''Ann'', ''2''], [''Cy'', ''1'']]
        [10206 / 25, 4374 / 25]]"
proof -
  have prep: "prepare_label_cards to_numeric_cell
      [(Str ''Customer'', [''Cy'', ''Ann'', ''Bo'']), (Str ''carryout'', [''1'', ''0'', ''2'']),
       (Str ''Dine-In'', [''1'', ''2'', ''0''])]
     = Inr ([LabelCard ''Bo'' (Some 2) None None, LabelCard ''Cy'' (Some 1) None None,
             LabelCard ''Pack Summary'' None (Some 1) (Some 1)],
            [(''Ann'', 2), (''Cy'', 1)])"
    by code_simp
  from dine_in_summary_entries [OF prep, of 612 792] prep show ?thesis
    by (simp add: str_int_examples TITLE_FONT_def SUMMARY_TITLE_FONT_SIZE_def PAGE_MARGIN_X_def
        PAGE_MARGIN_Y_def inch_def)
qed

section \<open>The grid layout and the document: proofs\<close>

lemma draw_label_card_emit:
  "draw_label_card pdf label_top label_left crd =
     emit pdf (current_page (draw_label_card new_canvas label_top label_left crd))"
  by (simp add: draw_label_card_def Let_def emit_def new_canvas_def split: option.splits)

lemma label_loop_step:
  "label_loop k [c] (snd letter) (pdf, drawn) =
     (emit (if k \<noteq> 0 \<and> k mod 30 = 0 then showPage pdf else pdf)
        (placed_card ((k mod 30) mod 3) ((k mod 30) div 3) c), True)"
  by (simp add: Let_def LABEL_COLUMNS_def LABEL_ROWS_def placed_card_def
      draw_label_card_emit [of "showPage pdf"] draw_label_card_emit [of pdf])

lemma label_loop_append:
  "label_loop i (xs @ ys) h st = label_loop (i + length xs) ys h (label_loop i xs h st)"
proof (induction xs arbitrary: i st)
  case Nil
  then show ?case by simp
next
  case (Cons x xs)
  obtain pdf drawn where st: "st = (pdf, drawn)" by (cases st)
  show ?case unfolding st by (simp add: Let_def Cons.IH)
qed

lemma drawn_cells_snoc: "a \<le> b \<Longrightarrow>
  drawn_cells cards a (Suc b) = drawn_cells cards a b @ placed_card ((b mod 30) mod 3) ((b mod 30) div 3) (cards ! b)"
  by (simp add: drawn_cells_def)

lemma page_break_arith:
  assumes "Suc i mod 30 = 0"
  shows "Suc i div 30 = Suc (i div 30)" and "30 * (i div 30) + 30 = Suc i"
    and "30 * (Suc i div 30) = Suc i"
proof -
  show d: "Suc i div 30 = Suc (i div 30)" using assms by (simp add: div_Suc)
  show f: "30 * (Suc i div 30) = Suc i" using assms by (metis add.right_neutral mult_div_mod_eq)
  from d f show "30 * (i div 30) + 30 = Suc i" by simp
qed

lemma same_page_arith:
  assumes "Suc i mod 30 \<noteq> 0"
  shows "Suc i div 30 = i div 30" and "30 * (i div 30) \<le> Suc i"
proof -
  show "Suc i div 30 = i div 30" using assms by (simp add: div_Suc)
  have "30 * (i div 30) \<le> i" by simp
  then show "30 * (i div 30) \<le> Suc i" by simp
qed

lemma label_loop_prefix:
  assumes "i < length cards"
  shows "label_loop 0 (take (Suc i) cards) (snd letter) (new_canvas, False) =
     (\<lparr>finished_pages = map (\<lambda>p. drawn_cells cards (30 * p) (30 * p + 30)) [0 ..< i div 30],
       current_page = drawn_cells cards (30 * (i div 30)) (Suc i)\<rparr>, True)"
  using assms
proof (induction i)
  case 0
  then have "take (Suc 0) cards = [cards ! 0]"
    by (simp add: take_Suc_conv_app_nth)
  then show ?case
    by (simp add: label_loop_step emit_def new_canvas_def drawn_cells_def del: label_loop.simps)
next
  case (Suc i)
  let ?k = "Suc i"
  let ?F = "\<lambda>p. drawn_cells cards (30 * p) (30 * p + 30)"
  let ?placed = "placed_card ((?k mod 30) mod 3) ((?k mod 30) div 3) (cards ! ?k)"
  from Suc.prems have t: "take (Suc ?k) cards = take ?k cards @ [cards ! ?k]"
    by (simp add: take_Suc_conv_app_nth)
  from Suc.prems have len: "0 + length (take ?k cards) = ?k" by simp
  from Suc have IH: "label_loop 0 (take ?k cards) (snd letter) (new_canvas, False) =
     (\<lparr>finished_pages = map ?F [0 ..< i div 30],
       current_page = drawn_cells cards (30 * (i div 30)) ?k\<rparr>, True)"
    by simp
  have one: "drawn_cells cards ?k (Suc ?k) = ?placed"
    by (simp add: drawn_cells_def)
  show ?case
  proof (cases "?k mod 30 = 0")
    case True
    note ar = page_break_arith [OF True]
    have "label_loop 0 (take (Suc ?k) cards) (snd letter) (new_canvas, False) =
        (\<lparr>finished_pages = map ?F [0 ..< i div 30] @ [drawn_cells cards (30 * (i div 30)) ?k],
          current_page = ?placed\<rparr>, True)"
      unfolding t label_loop_append IH len label_loop_step
      using True by (simp add: emit_def showPage_def)
    also have "map ?F [0 ..< i div 30] @ [drawn_cells cards (30 * (i div 30)) ?k]
        = map ?F [0 ..< ?k div 30]"
      unfolding ar(1) by (simp add: ar(2))
    also have "?placed = drawn_cells cards (30 * (?k div 30)) (Suc ?k)"
      unfolding ar(3) one ..
    finally show ?thesis .
  next
    case False
    note ar = same_page_arith [OF False]
    have "label_loop 0 (take (Suc ?k) cards) (snd letter) (new_canvas, False) =
        (\<lparr>finished_pages = map ?F [0 ..< i div 30],
          current_page = drawn_cells cards (30 * (i div 30)) ?k @ ?placed\<rparr>, True)"
      unfolding t label_loop_append IH len label_loop_step
      using False by (simp add: emit_def)
    also have "drawn_cells cards (30 * (i div 30)) ?k @ ?placed
        = drawn_cells cards (30 * (?k div 30)) (Suc ?k)"
      unfolding ar(1) using drawn_cells_snoc [OF ar(2), of cards] by simp
    also have "[0 ..< i div 30] = [0 ..< ?k div 30]"
      unfolding ar(1) ..
    finally show ?thesis .
  qed
qed


text \<open>
  C3. After the card with index \<open>i\<close> is drawn, \<open>i div 30\<close> pages are closed, each
  holding the thirty cards of its range in their cells, and the open page holds the cards
  from index \<open>30 * (i div 30)\<close> to \<open>i\<close>, the card with index \<open>j\<close> in column
  \<open>(j mod 30) mod 3\<close> and row \<open>(j mod 30) div 3\<close>. So the card \<open>i\<close> lies on the page
  \<open>i div 30\<close>, and a page is closed before it exactly when \<open>i\<close> is a positive multiple
  of thirty.
\<close>

theorem grid_placement:
  assumes "i < length cards"
  shows "LABEL_COLUMNS = 3 \<and> LABEL_COLUMNS * LABEL_ROWS = 30 \<and>
     (case label_loop 0 (take (Suc i) cards) (snd letter) (new_canvas, False) of
        (pdf, labels_drawn) \<Rightarrow>
          length (finished_pages pdf) = i div 30 \<and>
          finished_pages pdf =
            map (\<lambda>p. concat (map (\<lambda>j. placed_card ((j mod 30) mod 3) ((j mod 30) div 3) (cards ! j))
                               [30 * p ..< 30 * p + 30]))
              [0 ..< i div 30] \<and>
          current_page pdf =
            concat (map (\<lambda>j. placed_card ((j mod 30) mod 3) ((j mod 30) div 3) (cards ! j))
                      [30 * (i div 30) ..< Suc i]))"
  unfolding label_loop_prefix [OF assms]
  by (simp add: drawn_cells_def LABEL_COLUMNS_def LABEL_ROWS_def)

lemma draw_dine_in_summary_emit:
  "draw_dine_in_summary pdf summary w h =
     emit pdf (current_page (draw_dine_in_summary new_canvas summary w h))"
  by (simp add: draw_dine_in_summary_def Let_def emit_def new_canvas_def)

lemma summary_page_nonempty:
  "current_page (draw_dine_in_summary new_canvas summary w h) \<noteq> []"
  by (simp add: draw_dine_in_summary_page)

lemma save_emit_after_showPage:
  "ops \<noteq> [] \<Longrightarrow> save (emit (showPage pdf) ops) = finished_pages pdf @ [current_page pdf] @ [ops]"
  by (simp add: save_def emit_def showPage_def)

lemma save_emit_new: "ops \<noteq> [] \<Longrightarrow> save (emit new_canvas ops) = [ops]"
  by (simp add: save_def emit_def showPage_def new_canvas_def)

lemma last_page_arith:
  assumes "0 < (n :: nat)"
  shows "(n + 29) div 30 = Suc ((n - 1) div 30)"
    and "min n (30 * ((n - 1) div 30) + 30) = n"
    and "p < (n - 1) div 30 \<Longrightarrow> min n (30 * p + 30) = 30 * p + 30"
proof -
  from assms obtain m where n: "n = Suc m" by (cases n) auto
  have "(m + 30) div 30 = Suc (m div 30)" by simp
  then show "(n + 29) div 30 = Suc ((n - 1) div 30)" by (simp add: n)
  have "m < 30 * (m div 30) + 30"
    using mod_less_divisor [of 30 m] mult_div_mod_eq [of 30 m] by linarith
  then show "min n (30 * ((n - 1) div 30) + 30) = n" by (simp add: n)
  assume "p < (n - 1) div 30"
  then have "Suc p \<le> m div 30" by (simp add: n)
  then have "30 * Suc p \<le> 30 * (m div 30)" by (simp only: mult_le_mono2)
  also have "\<dots> \<le> m" by simp
  finally show "min n (30 * p + 30) = 30 * p + 30" by (simp add: n)
qed

lemma label_pages_last:
  assumes "cards \<noteq> []"
  shows "map (\<lambda>p. drawn_cells cards (30 * p) (min (length cards) (30 * p + 30)))
            [0 ..< (length cards + 29) div 30]
         = map (\<lambda>p. drawn_cells cards (30 * p) (30 * p + 30)) [0 ..< (length cards - 1) div 30]
           @ [drawn_cells cards (30 * ((length cards - 1) div 30)) (length cards)]"
proof -
  let ?n = "length cards"
  let ?q = "(?n - 1) div 30"
  from assms have pos: "0 < ?n" by simp
  note ar = last_page_arith [OF pos]
  have "map (\<lambda>p. drawn_cells cards (30 * p) (min ?n (30 * p + 30))) [0 ..< ?q]
      = map (\<lambda>p. drawn_cells cards (30 * p) (30 * p + 30)) [0 ..< ?q]"
    by (rule map_cong) (simp_all add: ar(3))
  then show ?thesis
    unfolding ar(1) by (simp add: ar(2))
qed

text \<open>
  C7. Whenever the cards are prepared without an error, the document is the label pages
  followed by one summary page: page \<open>p\<close> of the \<open>(n + 29) div 30\<close> label pages holds
  the cards of the indices from \<open>30 * p\<close> up to \<open>30 * p + 29\<close> (as far as there are
  cards) and nothing else, and the last page holds the dine-in summary and nothing else.
  With no card the document is the summary page alone.
\<close>

theorem label_pages_then_summary_page:
  "build_labels_pdf to_numeric df =
     (case prepare_label_cards to_numeric df of
        Inl e \<Rightarrow> Inl e
      | Inr (cards, summary) \<Rightarrow>
          Inr (map (\<lambda>p. concat (map (\<lambda>j. placed_card ((j mod 30) mod 3) ((j mod 30) div 3) (cards ! j))
                                  [30 * p ..< min (length cards) (30 * p + 30)]))
                 [0 ..< (length cards + 29) div 30]
               @ [current_page (draw_dine_in_summary new_canvas summary (fst letter) (snd letter))]))"
proof (cases "prepare_label_cards to_numeric df")
  case (Inl e)
  then show ?thesis by (simp add: build_labels_pdf_def)
next
  case (Inr r)
  obtain cards summary where r: "r = (cards, summary)" by (cases r)
  let ?s = "current_page (draw_dine_in_summary new_canvas summary (fst letter) (snd letter))"
  have pages: "(case label_loop 0 cards (snd letter) (new_canvas, False) of
             (pdf, labels_drawn) \<Rightarrow>
               save (draw_dine_in_summary (if labels_drawn then showPage pdf else pdf) summary
                       (fst letter) (snd letter)))
        = map (\<lambda>p. drawn_cells cards (30 * p) (min (length cards) (30 * p + 30)))
            [0 ..< (length cards + 29) div 30] @ [?s]"
  proof (cases "cards = []")
    case True
    have "save (draw_dine_in_summary new_canvas summary (fst letter) (snd letter)) = [?s]"
      by (subst draw_dine_in_summary_emit) (rule save_emit_new [OF summary_page_nonempty])
    with True show ?thesis by simp
  next
    case False
    then have i: "length cards - 1 < length cards" by simp
    from False have tk: "take (Suc (length cards - 1)) cards = cards" by simp
    have sv: "save (draw_dine_in_summary (showPage pdf) summary (fst letter) (snd letter))
        = finished_pages pdf @ [current_page pdf] @ [?s]" for pdf
      by (subst draw_dine_in_summary_emit)
        (rule save_emit_after_showPage [OF summary_page_nonempty])
    from False have sl: "Suc (length cards - 1) = length cards" by simp
    show ?thesis
      using label_loop_prefix [OF i] sl unfolding tk label_pages_last [OF False]
      by (simp add: sv)
  qed
  obtain pdf drawn where ll: "label_loop 0 cards (snd letter) (new_canvas, False) = (pdf, drawn)"
    by (cases "label_loop 0 cards (snd letter) (new_canvas, False)")
  from pages have "save (draw_dine_in_summary (if drawn then showPage pdf else pdf) summary
                       (fst letter) (snd letter))
        = map (\<lambda>p. drawn_cells cards (30 * p) (min (length cards) (30 * p + 30)))
            [0 ..< (length cards + 29) div 30] @ [?s]"
    unfolding ll by (simp only: prod.case)
  then show ?thesis
    unfolding build_labels_pdf_def Inr r drawn_cells_def
    by (simp only: sum.case prod.case ll Let_def)
qed

text \<open>C3 at the 31st of 31 cards: one page is closed and the card is the only one on
  the open page, in column 0 and row 0.\<close>

theorem grid_placement_witness:
  "(case label_loop 0 (take (Suc 30) (replicate 31 (LabelCard ''A'' (Some 1) None None)))
           (snd letter) (new_canvas, False) of
      (pdf, labels_drawn) \<Rightarrow>
        length (finished_pages pdf) = 1 \<and>
        current_page pdf = placed_card 0 0 (LabelCard ''A'' (Some 1) None None))"
  using grid_placement [of 30 "replicate 31 (LabelCard ''A'' (Some 1) None None)"]
  by (simp split: prod.splits del: label_loop.simps)

text \<open>C7 at an order of 5 (one label page of four cards, then the summary page) and at
  an order of 0 (the summary page alone).\<close>

theorem label_pages_then_summary_page_witness:
  "build_labels_pdf to_numeric_cell
     [(Str ''Name'', [''Bob'']), (Str ''Carry Out'', [''5'']), (Str ''Dine In'', [''2''])]
   = Inr [placed_card 0 0 (LabelCard ''Bob'' (Some 5) None None)
            @ placed_card 1 0 (LabelCard ''Bob'' None None None)
            @ placed_card 2 0 (LabelCard ''Bob'' None None None)
            @ placed_card 0 1 (LabelCard ''Pack Summary'' None (Some 2) (Some 1)),
          current_page (draw_dine_in_summary new_canvas [(''Bob'', 2)] (fst letter) (snd letter))] \<and>
   build_labels_pdf to_numeric_cell
     [(Str ''Name'', [''Bob'']), (Str ''Carry Out'', [''0'']), (Str ''Dine In'', [''0''])]
   = Inr [current_page (draw_dine_in_summary new_canvas [] (fst letter) (snd letter))]"
proof -
  have p1: "prepare_label_cards to_numeric_cell
     [(Str ''Name'', [''Bob'']), (Str ''Carry Out'', [''5'']), (Str ''Dine In'', [''2''])]
     = Inr ([LabelCard ''Bob'' (Some 5) None None, LabelCard ''Bob'' None None None,
             LabelCard ''Bob'' None None None,
             LabelCard ''Pack Summary'' None (Some 2) (Some 1)], [(''Bob'', 2)])"
    by code_simp
  have p2: "prepare_label_cards to_numeric_cell
     [(Str ''Name'', [''Bob'']), (Str ''Carry Out'', [''0'']), (Str ''Dine In'', [''0''])] = Inr ([], [])"
    by code_simp
  show ?thesis
    using label_pages_then_summary_page [of to_numeric_cell
        "[(Str ''Name'', [''Bob'']), (Str ''Carry Out'', [''5'']), (Str ''Dine In'', [''2''])]"]
      label_pages_then_summary_page [of to_numeric_cell
        "[(Str ''Name'', [''Bob'']), (Str ''Carry Out'', [''0'']), (Str ''Dine In'', [''0''])]"]
    unfolding p1 p2 by (simp add: numeral_2_eq_2)
qed

end
